theory Spec2Isabelle
  imports Main "HOL-Library.Char_ord" "HOL-Library.List_Lexorder"
begin

section \<open>Strings\<close>

text \<open>
  A JavaScript string is a sequence of code units. It is modelled as \<open>string\<close>: the
  model covers the strings whose code units are below 256, which is where every literal
  and every pattern of the program lives. \<open>length\<close> is the \<open>.length\<close> of the source,
  \<open>take n\<close> is \<open>.slice(0, n)\<close> for a non-negative \<open>n\<close>, and \<open><\<close> on strings (the
  lexicographic order of the code units) is the \<open><\<close> of the source.
\<close>

definition isWhiteSpace :: "char \<Rightarrow> bool" where
  \<comment> \<open>what \<open>String.prototype.trim\<close> strips: TAB, LF, VT, FF, CR, space, NBSP\<close>
  "isWhiteSpace c \<longleftrightarrow>
     c \<in> set [CHR 0x09, CHR 0x0A, CHR 0x0B, CHR 0x0C, CHR 0x0D, CHR 0x20, CHR 0xA0]"

definition trim :: "string \<Rightarrow> string" where
  "trim s = rev (dropWhile isWhiteSpace (rev (dropWhile isWhiteSpace s)))"

fun startsWith :: "string \<Rightarrow> string \<Rightarrow> bool" where
  \<comment> \<open>\<open>startsWith s p\<close>: \<open>p\<close> is a prefix of \<open>s\<close>\<close>
  "startsWith s [] = True"
| "startsWith [] (p # ps) = False"
| "startsWith (c # cs) (p # ps) = (c = p \<and> startsWith cs ps)"

fun includesStr :: "string \<Rightarrow> string \<Rightarrow> bool" where
  \<comment> \<open>\<open>s.includes(p)\<close>: \<open>p\<close> occurs in \<open>s\<close>\<close>
  "includesStr [] p = (p = [])"
| "includesStr (c # cs) p = (startsWith (c # cs) p \<or> includesStr cs p)"

definition endsWith :: "string \<Rightarrow> string \<Rightarrow> bool" where
  "endsWith s p = startsWith (rev s) (rev p)"

section \<open>Errors\<close>

text \<open>
  Every \<open>throw\<close> of the program is a constructor, named after the place that throws;
  the message of a caught platform error is kept where the program reads it.
\<close>

datatype error =
    StateDirCreateFailed
  | StateDirAccessFailed
  | StateReadFailed
  | StateWriteFailed
  | FetchHtmlFailed string
  | LoginFailed string
  | InvalidArrayLength
  | UploadFailed nat string
  | PostFailed string

section \<open>State Store (state_manager.ts)\<close>

text \<open>
  The file system as the state store sees it: whether the state directory exists, the
  content of the state file when it exists, and which operations the system refuses
  (with a code other than \<open>ENOENT\<close>).
\<close>

record filesystem =
  dirExists :: bool
  fileContent :: "string option"
  accessDenied :: bool
  mkdirFails :: bool
  readFails :: bool
  writeFails :: bool

definition ensureStateDirectoryExists :: "filesystem \<Rightarrow> (error + unit) \<times> filesystem" where
  "ensureStateDirectoryExists fs =
     (if accessDenied fs then (Inl StateDirAccessFailed, fs)
      else if dirExists fs then (Inr (), fs)
      else if mkdirFails fs then (Inl StateDirCreateFailed, fs)
      else (Inr (), fs\<lparr>dirExists := True\<rparr>))"

definition readLastProcessedRunId :: "filesystem \<Rightarrow> (error + string option) \<times> filesystem" where
  "readLastProcessedRunId fs =
     (case ensureStateDirectoryExists fs of
        (Inl e, fs') \<Rightarrow> (Inl e, fs')
      | (Inr _, fs') \<Rightarrow>
          (case fileContent fs' of
             None \<Rightarrow> (Inr None, fs')
           | Some content \<Rightarrow>
               if readFails fs' then (Inl StateReadFailed, fs')
               else let trimmedContent = trim content
                    in (Inr (if length trimmedContent > 0 then Some trimmedContent else None), fs')))"

definition writeLastProcessedRunId :: "string \<Rightarrow> filesystem \<Rightarrow> (error + unit) \<times> filesystem" where
  "writeLastProcessedRunId runId fs =
     (case ensureStateDirectoryExists fs of
        (Inl e, fs') \<Rightarrow> (Inl e, fs')
      | (Inr _, fs') \<Rightarrow>
          if writeFails fs' then (Inl StateWriteFailed, fs')
          else (Inr (), fs'\<lparr>fileContent := Some (trim runId)\<rparr>))"

definition healthy :: "filesystem \<Rightarrow> bool" where
  \<comment> \<open>no operation of the state store is refused\<close>
  "healthy fs \<longleftrightarrow> \<not> accessDenied fs \<and> \<not> mkdirFails fs \<and> \<not> readFails fs \<and> \<not> writeFails fs"

section \<open>Publisher (bluesky_notifier.ts)\<close>

definition MAX_POST_LENGTH :: nat where "MAX_POST_LENGTH = 300"
definition MAX_IMAGES_PER_POST :: nat where "MAX_IMAGES_PER_POST = 4"
definition MAX_RETRIES :: nat where "MAX_RETRIES = 3"
definition RETRY_DELAY_MS :: nat where "RETRY_DELAY_MS = 5000"

definition truncatePostText :: "string \<Rightarrow> string" where
  \<comment> \<open>the first statement of \<open>createPost\<close>\<close>
  "truncatePostText text =
     (if length text > MAX_POST_LENGTH
      then take (MAX_POST_LENGTH - 3) text @ ''...''
      else text)"

text \<open>
  The platform is outside the program. Its behaviour is a parameter: what the \<open>n\<close>-th
  request the client sends is answered with, \<open>None\<close> or \<open>Inr\<close> for a success and the
  message of the rejection otherwise. The client side is the state of \<open>agent\<close>: the
  session, the number of requests sent so far, what the platform has stored, and the time
  spent in \<open>setTimeout\<close> delays.
\<close>

type_synonym buffer = string
type_synonym blob = string

record uploadedImage =
  image_ref :: blob
  altText :: string

record postRecord =
  post_text :: string
  embed :: "(blob \<times> string) list option"

record platform =
  loginResult :: "nat \<Rightarrow> string option"
  uploadResult :: "nat \<Rightarrow> buffer \<Rightarrow> string + blob"
  postResult :: "nat \<Rightarrow> postRecord \<Rightarrow> string option"

record agent =
  session :: bool
  calls :: nat
  blobStore :: "blob list"
  posts :: "postRecord list"
  waited :: nat

function login_loop :: "platform \<Rightarrow> nat \<Rightarrow> agent \<Rightarrow> (error + unit) \<times> agent" where
  "login_loop P attempts ag =
     (if attempts < MAX_RETRIES then
        (case loginResult P (calls ag) of
           None \<Rightarrow> (Inr (), ag\<lparr>session := True, calls := calls ag + 1\<rparr>)
         | Some msg \<Rightarrow>
             if attempts + 1 \<ge> MAX_RETRIES
             then (Inl (LoginFailed msg), ag\<lparr>calls := calls ag + 1\<rparr>)
             else login_loop P (attempts + 1)
                    (ag\<lparr>calls := calls ag + 1, waited := waited ag + RETRY_DELAY_MS\<rparr>))
      else (Inr (), ag))"
  by pat_completeness auto
termination
  by (relation "measure (\<lambda>(P, attempts, ag). MAX_RETRIES - attempts)") auto

declare login_loop.simps [simp del]

definition login :: "platform \<Rightarrow> agent \<Rightarrow> (error + unit) \<times> agent" where
  "login P ag = login_loop P 0 ag"

text \<open>
  The inner \<open>while (attempts < MAX_RETRIES && !success)\<close> of \<open>uploadImages\<close>, for the
  image at index \<open>i\<close>: \<open>Inr (Some data)\<close> is the pushed response, \<open>Inr None\<close> is the
  loop ending with nothing pushed, \<open>Inl\<close> is the \<open>throw\<close>.
\<close>

function upload_attempts ::
  "platform \<Rightarrow> nat \<Rightarrow> buffer \<Rightarrow> nat \<Rightarrow> agent \<Rightarrow> (error + blob option) \<times> agent" where
  "upload_attempts P i imageBuffer attempts ag =
     (if attempts < MAX_RETRIES then
        (case uploadResult P (calls ag) imageBuffer of
           Inr data \<Rightarrow>
             (Inr (Some data), ag\<lparr>calls := calls ag + 1, blobStore := blobStore ag @ [data]\<rparr>)
         | Inl msg \<Rightarrow>
             if attempts + 1 \<ge> MAX_RETRIES
             then (Inl (UploadFailed (i + 1) msg), ag\<lparr>calls := calls ag + 1\<rparr>)
             else upload_attempts P i imageBuffer (attempts + 1)
                    (ag\<lparr>calls := calls ag + 1, waited := waited ag + RETRY_DELAY_MS\<rparr>))
      else (Inr None, ag))"
  by pat_completeness auto
termination
  by (relation "measure (\<lambda>(P, i, imageBuffer, attempts, ag). MAX_RETRIES - attempts)") auto

declare upload_attempts.simps [simp del]

definition defaultAltText :: string where
  \<comment> \<open>the literal that \<open>uploadImages\<close> uses where an alt text is missing or empty\<close>
  "defaultAltText = ''Nadocast forecast image''"

text \<open>The \<open>for (let i = 0; i < images.length; i++)\<close> of \<open>uploadImages\<close>.\<close>

function upload_loop ::
  "platform \<Rightarrow> buffer list \<Rightarrow> string list \<Rightarrow> nat \<Rightarrow> uploadedImage list \<Rightarrow> agent
     \<Rightarrow> (error + uploadedImage list) \<times> agent" where
  "upload_loop P images altTexts i uploadedImages ag =
     (if i < length images then
        (let imageBuffer = images ! i;
             altText = (if i < length altTexts \<and> altTexts ! i \<noteq> []
                        then altTexts ! i else defaultAltText)
         in case upload_attempts P i imageBuffer 0 ag of
              (Inl e, ag') \<Rightarrow> (Inl e, ag')
            | (Inr None, ag') \<Rightarrow> upload_loop P images altTexts (i + 1) uploadedImages ag'
            | (Inr (Some data), ag') \<Rightarrow>
                upload_loop P images altTexts (i + 1)
                  (uploadedImages @ [\<lparr>image_ref = data, altText = altText\<rparr>]) ag')
      else (Inr uploadedImages, ag))"
  by pat_completeness auto
termination
  by (relation "measure (\<lambda>(P, images, altTexts, i, uploadedImages, ag). length images - i)") auto

declare upload_loop.simps [simp del]

definition uploadImages ::
  "platform \<Rightarrow> buffer list \<Rightarrow> string list \<Rightarrow> agent \<Rightarrow> (error + uploadedImage list) \<times> agent" where
  "uploadImages P images altTexts ag =
     (if length images = 0 then (Inr [], ag)
      else
        let (images, altTexts) =
              (if length images > MAX_IMAGES_PER_POST
               then (take MAX_IMAGES_PER_POST images, take MAX_IMAGES_PER_POST altTexts)
               else (images, altTexts))
        in if length images \<noteq> length altTexts then
             \<comment> \<open>\<open>Array(n)\<close> with a negative \<open>n\<close> throws a RangeError\<close>
             (if length images < length altTexts then (Inl InvalidArrayLength, ag)
              else upload_loop P images
                     (altTexts @ replicate (length images - length altTexts) defaultAltText)
                     0 [] ag)
           else upload_loop P images altTexts 0 [] ag)"

text \<open>The \<open>while (attempts < MAX_RETRIES)\<close> of \<open>createPost\<close>; falling out of it returns.\<close>

function post_loop :: "platform \<Rightarrow> postRecord \<Rightarrow> nat \<Rightarrow> agent \<Rightarrow> (error + unit) \<times> agent" where
  "post_loop P postRec attempts ag =
     (if attempts < MAX_RETRIES then
        (case postResult P (calls ag) postRec of
           None \<Rightarrow> (Inr (), ag\<lparr>calls := calls ag + 1, posts := posts ag @ [postRec]\<rparr>)
         | Some msg \<Rightarrow>
             if msg \<noteq> [] \<and> includesStr msg ''RateLimitExceeded''
             then post_loop P postRec (attempts + 1)
                    (ag\<lparr>calls := calls ag + 1, waited := waited ag + RETRY_DELAY_MS * 5\<rparr>)
             else if attempts + 1 < MAX_RETRIES
             then post_loop P postRec (attempts + 1)
                    (ag\<lparr>calls := calls ag + 1, waited := waited ag + RETRY_DELAY_MS\<rparr>)
             else (Inl (PostFailed msg), ag\<lparr>calls := calls ag + 1\<rparr>))
      else (Inr (), ag))"
  by pat_completeness auto
termination
  by (relation "measure (\<lambda>(P, postRec, attempts, ag). MAX_RETRIES - attempts)") auto

declare post_loop.simps [simp del]

text \<open>
  \<open>createPost\<close>. The facets that \<open>RichText\<close> detects, the time stamp and the language tag
  of the record are left out: they do not change the text or the embedded images.
\<close>

definition createPost :: "platform \<Rightarrow> string \<Rightarrow> uploadedImage list \<Rightarrow> agent \<Rightarrow> (error + unit) \<times> agent" where
  "createPost P txt images ag =
     (let postText = truncatePostText txt;
          postRec = \<lparr>post_text = postText,
                     embed = (if length images > 0
                              then Some (map (\<lambda>img. (image_ref img, altText img)) images)
                              else None)\<rparr>
      in post_loop P postRec 0 ag)"

definition notifyBluesky ::
  "platform \<Rightarrow> string \<Rightarrow> buffer list \<Rightarrow> string list \<Rightarrow> agent \<Rightarrow> (error + unit) \<times> agent" where
  "notifyBluesky P postText imageBuffers altTexts ag =
     (case (if \<not> session ag then login P ag else (Inr (), ag)) of
        (Inl e, ag1) \<Rightarrow> (Inl e, ag1)
      | (Inr _, ag1) \<Rightarrow>
          (case uploadImages P imageBuffers altTexts ag1 of
             (Inl e, ag2) \<Rightarrow> (Inl e, ag2)
           | (Inr uploadedImages, ag2) \<Rightarrow> createPost P postText uploadedImages ag2))"

section \<open>Directory Walker, Run Locator and Image Selector (scraper.ts)\<close>

subsection \<open>The patterns\<close>

definition isDigit :: "char \<Rightarrow> bool" where
  "isDigit c \<longleftrightarrow> CHR ''0'' \<le> c \<and> c \<le> CHR ''9''"

text \<open>
  A pattern \<open>/\/(G)\/$/\<close> whose group \<open>G\<close> matches words of exactly \<open>n\<close> code units:
  it is anchored at the end of the input, so the only place it can match is the last
  \<open>n + 2\<close> code units, and \<open>match[1]\<close> is the word between the two slashes.
\<close>

definition tailCapture :: "nat \<Rightarrow> (string \<Rightarrow> bool) \<Rightarrow> string \<Rightarrow> string option" where
  "tailCapture n G s =
     (if length s < n + 2 then None
      else let t = drop (length s - (n + 2)) s;
               w = take n (drop 1 t)
           in if hd t = CHR ''/'' \<and> last t = CHR ''/'' \<and> G w then Some w else None)"

definition isRunToken :: "string \<Rightarrow> bool" where
  \<comment> \<open>\<open>t\d{2}z\<close>\<close>
  "isRunToken w =
     (case w of [a, b, c, d] \<Rightarrow> a = CHR ''t'' \<and> isDigit b \<and> isDigit c \<and> d = CHR ''z''
              | _ \<Rightarrow> False)"

definition YEAR_MONTH_REGEX :: "string \<Rightarrow> string option" where
  \<comment> \<open>\<open>/^\/(\d{6})\/$/\<close>: the whole input is the eight code units\<close>
  "YEAR_MONTH_REGEX s = (if length s = 8 then tailCapture 6 (list_all isDigit) s else None)"

definition YEAR_MONTH_URL_REGEX :: "string \<Rightarrow> string option" where
  \<comment> \<open>\<open>/\/(\d{6})\/$/\<close>, written inline in \<open>findLatestRunInfo\<close>\<close>
  "YEAR_MONTH_URL_REGEX = tailCapture 6 (list_all isDigit)"

definition DAY_REGEX :: "string \<Rightarrow> string option" where
  \<comment> \<open>\<open>/\/(\d{8})\/$/\<close>\<close>
  "DAY_REGEX = tailCapture 8 (list_all isDigit)"

definition RUN_REGEX :: "string \<Rightarrow> string option" where
  \<comment> \<open>\<open>/\/(t\d{2}z)\/$/\<close>\<close>
  "RUN_REGEX = tailCapture 4 isRunToken"

definition lower :: "char \<Rightarrow> char" where
  \<comment> \<open>the \<open>i\<close> flag: below 256 only the ASCII letters are identified with one another;
      a capital letter becomes the small one by setting the bit \<open>0x20\<close>\<close>
  "lower c =
     (if CHR ''A'' \<le> c \<and> c \<le> CHR ''Z''
      then (case c of Char b0 b1 b2 b3 b4 b5 b6 b7 \<Rightarrow> Char b0 b1 b2 b3 b4 True b6 b7)
      else c)"

definition matchLiteral :: "string \<Rightarrow> string \<Rightarrow> string option" where
  \<comment> \<open>the literal \<open>p\<close> at the start of \<open>s\<close>, case ignored; what follows it\<close>
  "matchLiteral p s =
     (if length p \<le> length s \<and> map lower (take (length p) s) = map lower p
      then Some (drop (length p) s) else None)"

definition isLineTerminator :: "char \<Rightarrow> bool" where
  \<comment> \<open>what \<open>.\<close> does not match\<close>
  "isLineTerminator c \<longleftrightarrow> c = CHR 0x0A \<or> c = CHR 0x0D"

definition matchRestPng :: "string \<Rightarrow> bool" where
  \<comment> \<open>\<open>.*\.png$\<close>: the input ends in \<open>.png\<close> and has no line terminator before it\<close>
  "matchRestPng s \<longleftrightarrow>
     4 \<le> length s \<and> map lower (drop (length s - 4) s) = ''.png''
     \<and> list_all (\<lambda>c. \<not> isLineTerminator c) (take (length s - 4) s)"

definition matchTornado :: "string \<Rightarrow> bool" where
  \<comment> \<open>\<open>tornado_.*\.png$\<close>\<close>
  "matchTornado s = (case matchLiteral ''tornado_'' s of None \<Rightarrow> False | Some r \<Rightarrow> matchRestPng r)"

definition matchTornadoHere :: "string \<Rightarrow> bool" where
  \<comment> \<open>\<open>_(sig_)?tornado_.*\.png$\<close> at the start of the input: with the group, then without\<close>
  "matchTornadoHere s =
     (case matchLiteral ''_'' s of
        None \<Rightarrow> False
      | Some r \<Rightarrow>
          (case matchLiteral ''sig_'' r of Some r' \<Rightarrow> matchTornado r' | None \<Rightarrow> False)
          \<or> matchTornado r)"

fun tails :: "string \<Rightarrow> string list" where
  "tails [] = [[]]"
| "tails (c # cs) = (c # cs) # tails cs"

definition TORNADO_IMG_REGEX :: "string \<Rightarrow> bool" where
  \<comment> \<open>\<open>/_(sig_)?tornado_.*\.png$/i.test(s)\<close>: a match at some position of \<open>s\<close>\<close>
  "TORNADO_IMG_REGEX s = list_ex matchTornadoHere (tails s)"

subsection \<open>The network\<close>

text \<open>
  A fetched page is given as its \<open>a\<close> elements in document order, each with its class
  names and its \<open>href\<close> attribute. The network is a parameter: the page (or the failure)
  behind each URL, the image (or the failure) behind each URL, and \<open>resolveUrl\<close>, the
  result of \<open>new URL(href, base).toString()\<close>, \<open>None\<close> where the constructor throws.
\<close>

record anchor =
  classes :: "string list"
  href :: "string option"

record network =
  htmlAt :: "string \<Rightarrow> string + anchor list"
  imageAt :: "string \<Rightarrow> string + buffer"
  resolveUrl :: "string \<Rightarrow> string \<Rightarrow> string option"

definition fetchHtml :: "network \<Rightarrow> string \<Rightarrow> error + anchor list" where
  "fetchHtml N url = (case htmlAt N url of Inl msg \<Rightarrow> Inl (FetchHtmlFailed msg) | Inr page \<Rightarrow> Inr page)"

subsection \<open>Directory Walker\<close>

definition isDirectoryLink :: "anchor \<Rightarrow> bool" where
  \<comment> \<open>the selector \<open>a.directory\<close>\<close>
  "isDirectoryLink a \<longleftrightarrow> ''directory'' \<in> set (classes a)"

definition linkMatches :: "(string \<Rightarrow> string option) \<Rightarrow> anchor \<Rightarrow> string \<Rightarrow> string \<Rightarrow> bool" where
  \<comment> \<open>the tests \<open>if (href)\<close> and \<open>if (match && match[1])\<close> of the callback:
      the link has the non-empty href \<open>h\<close>, and the pattern captures the non-empty token in it\<close>
  "linkMatches patternRegex a h dirValue \<longleftrightarrow>
     href a = Some h \<and> h \<noteq> [] \<and> patternRegex h = Some dirValue \<and> dirValue \<noteq> []"

text \<open>The body of the \<open>each\<close> callback, on the pair \<open>(latestDirValue, latestDirUrl)\<close>.\<close>

definition directoryStep ::
  "network \<Rightarrow> string \<Rightarrow> (string \<Rightarrow> string option) \<Rightarrow> anchor
     \<Rightarrow> string option \<times> string option \<Rightarrow> string option \<times> string option" where
  "directoryStep N pageUrl patternRegex element st =
     (case st of (latestDirValue, latestDirUrl) \<Rightarrow>
        (case href element of
           None \<Rightarrow> st
         | Some h \<Rightarrow>
             if h = [] then st
             else (case patternRegex h of
                     None \<Rightarrow> st
                   | Some dirValue \<Rightarrow>
                       if dirValue = [] then st
                       else if (case latestDirValue of None \<Rightarrow> True | Some v \<Rightarrow> dirValue > v)
                       then (Some dirValue,
                             (case resolveUrl N h pageUrl of
                                Some u \<Rightarrow> Some u
                              | None \<Rightarrow> latestDirUrl))
                       else st)))"

definition findLatestDirectoryUrl ::
  "network \<Rightarrow> string \<Rightarrow> (string \<Rightarrow> string option) \<Rightarrow> error + string option" where
  "findLatestDirectoryUrl N pageUrl patternRegex =
     (case fetchHtml N pageUrl of
        Inl e \<Rightarrow> Inl e
      | Inr page \<Rightarrow>
          Inr (snd (fold (directoryStep N pageUrl patternRegex)
                         (filter isDirectoryLink page) (None, None))))"

subsection \<open>Image Selector\<close>

definition imageStep :: "network \<Rightarrow> string \<Rightarrow> anchor \<Rightarrow> string list \<Rightarrow> string list" where
  "imageStep N runDirUrl element imageUrls =
     (case href element of
        None \<Rightarrow> imageUrls
      | Some h \<Rightarrow>
          if h \<noteq> [] \<and> TORNADO_IMG_REGEX h
             \<and> \<not> includesStr h ''abs_calib'' \<and> \<not> includesStr h ''life_risk''
          then (case resolveUrl N h runDirUrl of
                  Some fullUrl \<Rightarrow> imageUrls @ [fullUrl]
                | None \<Rightarrow> imageUrls)
          else imageUrls)"

definition findTornadoImageUrls :: "network \<Rightarrow> string \<Rightarrow> error + string list" where
  "findTornadoImageUrls N runDirUrl =
     (case fetchHtml N runDirUrl of
        Inl e \<Rightarrow> Inl e
      | Inr page \<Rightarrow> Inr (fold (imageStep N runDirUrl) page []))"

subsection \<open>Run Locator\<close>

record runInfo =
  runId :: string
  runUrl :: string

definition latestDirectory ::
  "network \<Rightarrow> string \<Rightarrow> (string \<Rightarrow> string option) \<Rightarrow> string option" where
  \<comment> \<open>one stage inside the \<open>try\<close>: a thrown error and a falsy result both end in \<open>null\<close>\<close>
  "latestDirectory N pageUrl patternRegex =
     (case findLatestDirectoryUrl N pageUrl patternRegex of
        Inl e \<Rightarrow> None
      | Inr None \<Rightarrow> None
      | Inr (Some url) \<Rightarrow> if url = [] then None else Some url)"

definition captured :: "(string \<Rightarrow> string option) \<Rightarrow> string \<Rightarrow> string option" where
  \<comment> \<open>\<open>m = url.match(re); m ? m[1] : null\<close>, then the test \<open>!token\<close>\<close>
  "captured re url = (case re url of None \<Rightarrow> None | Some w \<Rightarrow> if w = [] then None else Some w)"

definition findLatestRunInfo :: "network \<Rightarrow> string \<Rightarrow> runInfo option" where
  "findLatestRunInfo N MONITOR_URL =
     (case latestDirectory N MONITOR_URL YEAR_MONTH_REGEX of
        None \<Rightarrow> None
      | Some latestYearMonthUrl \<Rightarrow>
     (case captured YEAR_MONTH_URL_REGEX latestYearMonthUrl of
        None \<Rightarrow> None
      | Some yearMonth \<Rightarrow>
     (case latestDirectory N latestYearMonthUrl DAY_REGEX of
        None \<Rightarrow> None
      | Some latestDayUrl \<Rightarrow>
     (case captured DAY_REGEX latestDayUrl of
        None \<Rightarrow> None
      | Some dayYYYYMMDD \<Rightarrow>
     (case latestDirectory N latestDayUrl RUN_REGEX of
        None \<Rightarrow> None
      | Some latestRunUrl \<Rightarrow>
     (case captured RUN_REGEX latestRunUrl of
        None \<Rightarrow> None
      | Some runTime \<Rightarrow>
          Some \<lparr>runId = dayYYYYMMDD @ ''_'' @ runTime, runUrl = latestRunUrl\<rparr>))))))"

section \<open>Image download (image_fetcher.ts)\<close>

definition fetchImages :: "network \<Rightarrow> string list \<Rightarrow> buffer list" where
  \<comment> \<open>a failed download is \<open>null\<close> and is filtered out\<close>
  "fetchImages N imageUrls =
     List.map_filter (\<lambda>url. case imageAt N url of Inl msg \<Rightarrow> None | Inr b \<Rightarrow> Some b) imageUrls"

section \<open>Orchestrator (index.ts)\<close>

record monitor =
  isProcessing :: bool
  disk :: filesystem
  bsky :: agent

definition filenameOf :: "string \<Rightarrow> string" where
  \<comment> \<open>\<open>imageUrl.substring(imageUrl.lastIndexOf('/') + 1)\<close>\<close>
  "filenameOf imageUrl = rev (takeWhile (\<lambda>c. c \<noteq> CHR ''/'') (rev imageUrl))"

text \<open>
  The body of the \<open>for (const imageUrl of imageUrls)\<close> loop. The \<open>catch\<close> inside it logs
  the error of a failed post and goes on, so only the platform state comes out.
\<close>

definition processImage ::
  "network \<Rightarrow> platform \<Rightarrow> string \<Rightarrow> runInfo \<Rightarrow> string \<Rightarrow> agent \<Rightarrow> agent" where
  "processImage N P MONITOR_URL latestRun imageUrl ag =
     (let filename = filenameOf imageUrl
      in case fetchImages N [imageUrl] of
           [] \<Rightarrow> ag
         | imageBuffer # _ \<Rightarrow>
             let postText = ''NADOCast Tornado Forecast'' @ [CHR 0x0A] @ ''Run: '' @ runId latestRun
                              @ [CHR 0x0A] @ ''Image: '' @ filename
                              @ [CHR 0x0A] @ ''Source: '' @ MONITOR_URL;
                 altText = ''NADOCast tornado probability forecast for run '' @ runId latestRun
                              @ ''. Image: '' @ filename @ ''.''
             in snd (notifyBluesky P postText [imageBuffer] [altText] ag))"

text \<open>The \<open>try\<close> block of \<open>checkNadocast\<close>: \<open>Inl\<close> is the error its \<open>catch\<close> receives.\<close>

definition checkBody ::
  "network \<Rightarrow> platform \<Rightarrow> string \<Rightarrow> monitor \<Rightarrow> (error + unit) \<times> monitor" where
  "checkBody N P MONITOR_URL st =
     (case findLatestRunInfo N MONITOR_URL of
        None \<Rightarrow> (Inr (), st)
      | Some latestRun \<Rightarrow>
     (case readLastProcessedRunId (disk st) of
        (Inl e, fs1) \<Rightarrow> (Inl e, st\<lparr>disk := fs1\<rparr>)
      | (Inr lastProcessedId, fs1) \<Rightarrow>
          if Some (runId latestRun) = lastProcessedId then (Inr (), st\<lparr>disk := fs1\<rparr>)
          else
     (case findTornadoImageUrls N (runUrl latestRun) of
        Inl e \<Rightarrow> (Inl e, st\<lparr>disk := fs1\<rparr>)
      | Inr imageUrls \<Rightarrow>
          if length imageUrls = 0
          then (case writeLastProcessedRunId (runId latestRun) fs1 of
                  (r, fs2) \<Rightarrow> (r, st\<lparr>disk := fs2\<rparr>))
          else
            let ag = fold (processImage N P MONITOR_URL latestRun) imageUrls (bsky st)
            in (case writeLastProcessedRunId (runId latestRun) fs1 of
                  (r, fs2) \<Rightarrow> (r, st\<lparr>disk := fs2, bsky := ag\<rparr>)))))"

definition checkNadocast :: "network \<Rightarrow> platform \<Rightarrow> string \<Rightarrow> monitor \<Rightarrow> monitor" where
  \<comment> \<open>the error is logged; every path releases the lock\<close>
  "checkNadocast N P MONITOR_URL st =
     (if isProcessing st then st
      else (snd (checkBody N P MONITOR_URL (st\<lparr>isProcessing := True\<rparr>)))\<lparr>isProcessing := False\<rparr>)"

section \<open>The priority order of the specification\<close>

text \<open>
  This definition follows the words of the specification, not the program: among more
  than four candidates, those whose file name contains \<open>sig_\<close> come first, the order
  inside each class is kept, and the first four remain. It is here to be compared with
  what \<open>uploadImages\<close> does.
\<close>

definition specPrioritise :: "string list \<Rightarrow> string list" where
  "specPrioritise names =
     take 4 (filter (\<lambda>f. includesStr f ''sig_'') names
             @ filter (\<lambda>f. \<not> includesStr f ''sig_'') names)"

section \<open>Sample inputs\<close>

definition fs0 :: filesystem where
  \<comment> \<open>a fresh deployment: no state directory, no state file, nothing refused\<close>
  "fs0 = \<lparr>dirExists = False, fileContent = None, accessDenied = False,
          mkdirFails = False, readFails = False, writeFails = False\<rparr>"

definition ag0 :: agent where
  \<comment> \<open>the client at start-up: no session, nothing sent\<close>
  "ag0 = \<lparr>session = False, calls = 0, blobStore = [], posts = [], waited = 0\<rparr>"

definition okPlatform :: platform where
  \<comment> \<open>a platform that accepts every request; the blob of an image is the image\<close>
  "okPlatform = \<lparr>loginResult = (\<lambda>n. None),
                  uploadResult = (\<lambda>n b. Inr b),
                  postResult = (\<lambda>n r. None)\<rparr>"

definition secondUploadFails :: platform where
  \<comment> \<open>accepts the image \<open>img1\<close> and rejects every other upload\<close>
  "secondUploadFails =
     okPlatform\<lparr>uploadResult := (\<lambda>n b. if b = ''img1'' then Inr ''blob1'' else Inl ''boom'')\<rparr>"

definition lastRateLimited :: platform where
  \<comment> \<open>rejects every post: the first two requests plainly, the later ones as rate-limited\<close>
  "lastRateLimited =
     okPlatform\<lparr>postResult := (\<lambda>n r. if n < 2 then Some ''boom'' else Some ''RateLimitExceeded'')\<rparr>"

definition fiveImages :: "string list" where
  \<comment> \<open>five candidates, each image standing for its file name\<close>
  "fiveImages = [''a_tornado'', ''b_sig_tornado'', ''c_tornado'', ''d_sig_tornado'', ''e_tornado'']"

definition dirLink :: "string \<Rightarrow> anchor" where
  \<comment> \<open>\<open><a class="directory" href=h>\<close>\<close>
  "dirLink h = \<lparr>classes = [''directory''], href = Some h\<rparr>"

definition fileLink :: "string \<Rightarrow> anchor" where
  \<comment> \<open>\<open><a class="file" href=h>\<close>\<close>
  "fileLink h = \<lparr>classes = [''file''], href = Some h\<rparr>"

definition plainLink :: "string \<Rightarrow> anchor" where
  \<comment> \<open>\<open><a href=h>\<close>, no class\<close>
  "plainLink h = \<lparr>classes = [], href = Some h\<rparr>"

definition rootUrl :: string where
  "rootUrl = ''http://nado.test/''"

definition runDirUrl0 :: string where
  "runDirUrl0 = ''http://nado.test/202504/20250408/t00z/''"

definition resolveSimple :: "string \<Rightarrow> string \<Rightarrow> string option" where
  \<comment> \<open>enough of URL resolution for the sample site: an absolute path replaces the path
      of the base, anything else is appended to the base directory\<close>
  "resolveSimple h base =
     (if startsWith h ''/'' then Some (''http://nado.test'' @ h) else Some (base @ h))"

definition runPage :: "anchor list" where
  "runPage = [fileLink ''a_tornado_1.png'', fileLink ''a_sig_tornado_1.png'',
              fileLink ''a_tornado_abs_calib_1.png'', fileLink ''a_wind_1.png'']"

definition sitePages :: "(string \<times> anchor list) list" where
  "sitePages =
     [(''http://nado.test/'', [dirLink ''/202503/'', dirLink ''/202504/'']),
      (''http://nado.test/202504/'', [dirLink ''/202504/20250407/'', dirLink ''/202504/20250408/'']),
      (''http://nado.test/202504/20250408/'', [dirLink ''/202504/20250408/t00z/'']),
      (''http://nado.test/202504/20250408/t00z/'', runPage)]"

definition site :: network where
  \<comment> \<open>a listing server with one month, two days and one run of four files\<close>
  "site = \<lparr>htmlAt = (\<lambda>url. case map_of sitePages url of
                                Some page \<Rightarrow> Inr page
                              | None \<Rightarrow> Inl ''HTTP error 404''),
            imageAt = (\<lambda>url. Inr (''PNG '' @ url)),
            resolveUrl = resolveSimple\<rparr>"

definition plainSite :: network where
  \<comment> \<open>a listing whose only link matches the month pattern and has no class\<close>
  "plainSite = site\<lparr>htmlAt := (\<lambda>url. Inr [plainLink ''/202504/''])\<rparr>"

definition badHrefSite :: network where
  \<comment> \<open>a day listing whose newest link has an href that \<open>new URL\<close> rejects (an unclosed
      IPv6 host); every other href resolves as on \<open>site\<close>\<close>
  "badHrefSite =
     \<lparr>htmlAt = (\<lambda>url. Inr [dirLink ''/202504/20250407/'', dirLink ''http://[/20250408/'']),
      imageAt = (\<lambda>url. Inl ''HTTP error 404''),
      resolveUrl = (\<lambda>h base. if startsWith h ''http://['' then None else resolveSimple h base)\<rparr>"

definition loginFails :: platform where
  \<comment> \<open>a platform that rejects every login\<close>
  "loginFails = okPlatform\<lparr>loginResult := (\<lambda>n. Some ''bad password'')\<rparr>"

definition st0 :: monitor where
  \<comment> \<open>the monitor at start-up on a fresh deployment\<close>
  "st0 = \<lparr>isProcessing = False, disk = fs0, bsky = ag0\<rparr>"

definition st1 :: monitor where
  \<comment> \<open>the monitor after the run \<open>20250408_t00z\<close> was processed\<close>
  "st1 = \<lparr>isProcessing = False,
          disk = fs0\<lparr>dirExists := True, fileContent := Some ''20250408_t00z''\<rparr>,
          bsky = ag0\<rparr>"

section \<open>Properties of the strings\<close>

lemma dropWhile_id: "xs = [] \<or> \<not> P (hd xs) \<Longrightarrow> dropWhile P xs = xs"
  by (cases xs) auto

lemma dropWhile_hd: "dropWhile P xs \<noteq> [] \<Longrightarrow> \<not> P (hd (dropWhile P xs))"
  by (metis hd_dropWhile)

lemma last_dropWhile: "dropWhile P xs \<noteq> [] \<Longrightarrow> last (dropWhile P xs) = last xs"
  by (induction xs) (auto split: if_splits)

lemma trim_hd: "trim s \<noteq> [] \<Longrightarrow> \<not> isWhiteSpace (hd (trim s))"
proof -
  assume ne: "trim s \<noteq> []"
  let ?u = "dropWhile isWhiteSpace s"
  let ?v = "dropWhile isWhiteSpace (rev ?u)"
  from ne have v: "?v \<noteq> []" by (simp add: trim_def)
  have u: "?u \<noteq> []"
  proof
    assume e: "?u = []"
    have "?v = []" unfolding e by simp
    with v show False by simp
  qed
  have "hd (trim s) = last ?v" using v by (simp add: trim_def hd_rev)
  also have "\<dots> = last (rev ?u)" using v by (rule last_dropWhile)
  also have "\<dots> = hd ?u" using u by (simp add: last_rev)
  finally show ?thesis using dropWhile_hd [OF u] by simp
qed

lemma trim_last: "trim s \<noteq> [] \<Longrightarrow> \<not> isWhiteSpace (last (trim s))"
proof -
  assume ne: "trim s \<noteq> []"
  let ?v = "dropWhile isWhiteSpace (rev (dropWhile isWhiteSpace s))"
  from ne have v: "?v \<noteq> []" by (simp add: trim_def)
  have "last (trim s) = hd ?v" using v by (simp add: trim_def last_rev)
  then show ?thesis using dropWhile_hd [OF v] by simp
qed

lemma trim_canonical:
  assumes "s = [] \<or> (\<not> isWhiteSpace (hd s) \<and> \<not> isWhiteSpace (last s))"
  shows "trim s = s"
proof (cases "s = []")
  case True
  then show ?thesis by (simp add: trim_def)
next
  case False
  with assms have h: "\<not> isWhiteSpace (hd s)" and l: "\<not> isWhiteSpace (last s)" by auto
  have 1: "dropWhile isWhiteSpace s = s" using h by (simp add: dropWhile_id)
  have "hd (rev s) = last s" using False by (simp add: hd_rev)
  then have 2: "dropWhile isWhiteSpace (rev s) = rev s" using l by (simp add: dropWhile_id)
  show ?thesis by (simp add: trim_def 1 2)
qed

lemma trim_idem: "trim (trim s) = trim s"
  using trim_hd [of s] trim_last [of s] by (intro trim_canonical) auto

section \<open>Properties of the State Store\<close>

lemma ensure_healthy:
  "healthy fs \<Longrightarrow> ensureStateDirectoryExists fs = (Inr (), fs\<lparr>dirExists := True\<rparr>)"
  by (simp add: healthy_def ensureStateDirectoryExists_def)

text \<open>
  C10. On a file system that refuses nothing, writing a run identifier \<open>r\<close> succeeds, and
  reading back then returns the trimmed \<open>r\<close> when that is not empty and \<open>None\<close> when
  \<open>r\<close> trims to the empty string; a non-empty \<open>r\<close> with no white space at either end
  is returned as it is.
\<close>

theorem write_then_read:
  assumes "healthy fs"
  shows "\<exists>fs'. writeLastProcessedRunId r fs = (Inr (), fs')
           \<and> fst (readLastProcessedRunId fs') = Inr (if trim r = [] then None else Some (trim r))
           \<and> (r \<noteq> [] \<and> \<not> isWhiteSpace (hd r) \<and> \<not> isWhiteSpace (last r)
                \<longrightarrow> fst (readLastProcessedRunId fs') = Inr (Some r))"
proof -
  let ?fs' = "fs\<lparr>dirExists := True, fileContent := Some (trim r)\<rparr>"
  have w: "writeLastProcessedRunId r fs = (Inr (), ?fs')"
    using assms by (simp add: writeLastProcessedRunId_def ensure_healthy healthy_def)
  have h': "healthy ?fs'" using assms by (simp add: healthy_def)
  have rd: "fst (readLastProcessedRunId ?fs') = Inr (if trim r = [] then None else Some (trim r))"
    using h' by (simp add: readLastProcessedRunId_def ensure_healthy healthy_def trim_idem Let_def)
  have "trim r = r" if "r \<noteq> []" "\<not> isWhiteSpace (hd r)" "\<not> isWhiteSpace (last r)"
    using that by (intro trim_canonical) simp
  with w rd show ?thesis by auto
qed

theorem write_then_read_witness:
  "healthy fs0
   \<and> fst (readLastProcessedRunId (snd (writeLastProcessedRunId ''20250408_t00z'' fs0)))
       = Inr (Some ''20250408_t00z'')
   \<and> fst (readLastProcessedRunId (snd (writeLastProcessedRunId '' 20250408_t00z  '' fs0)))
       = Inr (Some ''20250408_t00z'')
   \<and> fst (readLastProcessedRunId (snd (writeLastProcessedRunId ''  '' fs0))) = Inr None"
proof -
  have h: "healthy fs0" by (simp add: healthy_def fs0_def)
  have t1: "trim ''20250408_t00z'' = ''20250408_t00z''" by (simp add: trim_def isWhiteSpace_def)
  have t2: "trim '' 20250408_t00z  '' = ''20250408_t00z''" by (simp add: trim_def isWhiteSpace_def)
  have t3: "trim ''  '' = []" by (simp add: trim_def isWhiteSpace_def)
  from write_then_read [OF h, of "''20250408_t00z''"]
       write_then_read [OF h, of "'' 20250408_t00z  ''"]
       write_then_read [OF h, of "''  ''"]
  show ?thesis using h by (auto simp: t1 t2 t3)
qed

section \<open>Properties of the Publisher\<close>

subsection \<open>The retry loops\<close>

lemma upload_attempts_always_failing:
  "(\<forall>n. isl (uploadResult P n b)) \<Longrightarrow> attempts < MAX_RETRIES
     \<Longrightarrow> isl (fst (upload_attempts P i b attempts ag))"
proof (induction P i b attempts ag rule: upload_attempts.induct)
  case (1 P i b attempts ag)
  from "1.prems" obtain msg where m: "uploadResult P (calls ag) b = Inl msg"
    by (metis isl_def)
  show ?case
  proof (cases "MAX_RETRIES \<le> attempts + 1")
    case True
    with "1.prems" m show ?thesis by (simp add: upload_attempts.simps [of P i b attempts ag])
  next
    case False
    with "1.prems" m "1.IH" [of msg] show ?thesis
      by (simp add: upload_attempts.simps [of P i b attempts ag])
  qed
qed

lemma upload_attempts_not_skipped:
  "attempts < MAX_RETRIES \<Longrightarrow> fst (upload_attempts P i b attempts ag) \<noteq> Inr None"
proof (induction P i b attempts ag rule: upload_attempts.induct)
  case (1 P i b attempts ag)
  show ?case
  proof (cases "uploadResult P (calls ag) b")
    case (Inr d)
    with "1.prems" show ?thesis by (simp add: upload_attempts.simps [of P i b attempts ag])
  next
    case (Inl msg)
    show ?thesis
    proof (cases "MAX_RETRIES \<le> attempts + 1")
      case True
      with "1.prems" Inl show ?thesis by (simp add: upload_attempts.simps [of P i b attempts ag])
    next
      case False
      with "1.prems" Inl "1.IH" [of msg] show ?thesis
        by (simp add: upload_attempts.simps [of P i b attempts ag])
    qed
  qed
qed

lemma upload_attempts_blob:
  "fst (upload_attempts P i b attempts ag) = Inr (Some d) \<Longrightarrow> \<exists>n. uploadResult P n b = Inr d"
proof (induction P i b attempts ag rule: upload_attempts.induct)
  case (1 P i b attempts ag)
  show ?case
  proof (cases "attempts < MAX_RETRIES")
    case False
    with "1.prems" show ?thesis by (simp add: upload_attempts.simps [of P i b attempts ag])
  next
    case lt: True
    show ?thesis
    proof (cases "uploadResult P (calls ag) b")
      case (Inr d')
      with "1.prems" lt have "d' = d" by (simp add: upload_attempts.simps [of P i b attempts ag])
      with Inr show ?thesis by blast
    next
      case (Inl msg)
      show ?thesis
      proof (cases "MAX_RETRIES \<le> attempts + 1")
        case True
        with "1.prems" lt Inl show ?thesis by (simp add: upload_attempts.simps [of P i b attempts ag])
      next
        case False
        with "1.prems" lt Inl "1.IH" [of msg] show ?thesis
          by (simp add: upload_attempts.simps [of P i b attempts ag])
      qed
    qed
  qed
qed

lemma MAX_RETRIES_pos: "0 < MAX_RETRIES"
  by (simp add: MAX_RETRIES_def)

lemma upload_loop_done:
  "\<not> i < length images \<Longrightarrow> upload_loop P images alts i acc ag = (Inr acc, ag)"
  by (simp add: upload_loop.simps [of P images alts i acc ag])

lemma upload_loop_step:
  "i < length images \<Longrightarrow>
   upload_loop P images alts i acc ag =
     (case upload_attempts P i (images ! i) 0 ag of
        (Inl e, ag') \<Rightarrow> (Inl e, ag')
      | (Inr None, ag') \<Rightarrow> upload_loop P images alts (i + 1) acc ag'
      | (Inr (Some d), ag') \<Rightarrow>
          upload_loop P images alts (i + 1)
            (acc @ [\<lparr>image_ref = d,
                     altText = (if i < length alts \<and> alts ! i \<noteq> [] then alts ! i
                                else defaultAltText)\<rparr>]) ag')"
  by (simp add: upload_loop.simps [of P images alts i acc ag] Let_def)

lemma upload_loop_failing_image:
  "i \<le> k \<Longrightarrow> k < length images \<Longrightarrow> (\<forall>n. isl (uploadResult P n (images ! k)))
     \<Longrightarrow> isl (fst (upload_loop P images alts i acc ag))"
proof (induction "k - i" arbitrary: i acc ag)
  case 0
  then have ik: "i = k" by simp
  obtain r ag' where ua: "upload_attempts P k (images ! k) 0 ag = (r, ag')"
    by (cases "upload_attempts P k (images ! k) 0 ag")
  from upload_attempts_always_failing [OF "0.prems"(3) MAX_RETRIES_pos, of k ag] ua
  obtain e where "r = Inl e" by (cases r) auto
  with ua "0.prems"(2) show ?case by (simp add: ik upload_loop_step)
next
  case (Suc m)
  then have lt: "i < length images" and le: "i + 1 \<le> k" and m: "m = k - (i + 1)" by auto
  obtain r ag' where ua: "upload_attempts P i (images ! i) 0 ag = (r, ag')"
    by (cases "upload_attempts P i (images ! i) 0 ag")
  show ?case
  proof (cases r)
    case (Inl e)
    with ua lt show ?thesis by (simp add: upload_loop_step)
  next
    case (Inr res)
    show ?thesis
    proof (cases res)
      case None
      with Inr ua lt Suc.hyps(1) [OF m le Suc.prems(2) Suc.prems(3), of acc ag']
      show ?thesis by (simp add: upload_loop_step)
    next
      case (Some d)
      with Inr ua lt Suc.hyps(1) [OF m le Suc.prems(2) Suc.prems(3)]
      show ?thesis by (simp add: upload_loop_step)
    qed
  qed
qed

lemma upload_loop_success:
  "fst (upload_loop P images alts i acc ag) = Inr ups \<Longrightarrow> i \<le> length images \<Longrightarrow>
     length ups = length acc + (length images - i) \<and> take (length acc) ups = acc \<and>
     (\<forall>j. i \<le> j \<and> j < length images \<longrightarrow>
        (\<exists>n. uploadResult P n (images ! j) = Inr (image_ref (ups ! (length acc + (j - i)))))
        \<and> altText (ups ! (length acc + (j - i)))
            = (if j < length alts \<and> alts ! j \<noteq> [] then alts ! j else defaultAltText))"
proof (induction "length images - i" arbitrary: i acc ag)
  case 0
  then have ge: "\<not> i < length images" by simp
  with "0.prems" have "ups = acc" by (simp add: upload_loop_done)
  with ge show ?case by auto
next
  case (Suc m)
  then have lt: "i < length images" and le: "i + 1 \<le> length images"
    and m: "m = length images - (i + 1)" by auto
  obtain r ag' where ua: "upload_attempts P i (images ! i) 0 ag = (r, ag')"
    by (cases "upload_attempts P i (images ! i) 0 ag")
  let ?alt = "if i < length alts \<and> alts ! i \<noteq> [] then alts ! i else defaultAltText"
  from upload_attempts_not_skipped [OF MAX_RETRIES_pos, of P i "images ! i" ag] ua
  have nn: "r \<noteq> Inr None" by simp
  from Suc.prems(1) ua lt nn obtain d where r: "r = Inr (Some d)"
    by (cases r) (auto simp: upload_loop_step split: option.splits)
  let ?x = "\<lparr>image_ref = d, altText = ?alt\<rparr>"
  from Suc.prems(1) ua lt r
  have rec: "fst (upload_loop P images alts (i + 1) (acc @ [?x]) ag') = Inr ups"
    by (simp add: upload_loop_step)
  note IH = Suc.hyps(1) [OF m rec le]
  from IH have len: "length ups = length acc + (length images - i)" using lt by simp
  from IH have tk: "take (length acc + 1) ups = acc @ [?x]" by simp
  have tk': "take (length acc) ups = acc"
  proof -
    have "take (length acc) ups = take (length acc) (take (length acc + 1) ups)" by simp
    also have "\<dots> = acc" by (simp only: tk) simp
    finally show ?thesis .
  qed
  have at: "ups ! length acc = ?x"
  proof -
    have "ups ! length acc = take (length acc + 1) ups ! length acc" by simp
    also have "\<dots> = ?x" by (simp only: tk) simp
    finally show ?thesis .
  qed
  from ua r have "fst (upload_attempts P i (images ! i) 0 ag) = Inr (Some d)" by simp
  from upload_attempts_blob [OF this] obtain n where n: "uploadResult P n (images ! i) = Inr d" ..
  have all: "(\<exists>n. uploadResult P n (images ! j) = Inr (image_ref (ups ! (length acc + (j - i)))))
        \<and> altText (ups ! (length acc + (j - i)))
            = (if j < length alts \<and> alts ! j \<noteq> [] then alts ! j else defaultAltText)"
    if j: "i \<le> j" "j < length images" for j
  proof (cases "j = i")
    case True
    with at n show ?thesis by auto
  next
    case False
    with j have j1: "i + 1 \<le> j" by simp
    then have idx: "length (acc @ [?x]) + (j - (i + 1)) = length acc + (j - i)" by simp
    from IH j1 j(2)
    have "(\<exists>n. uploadResult P n (images ! j)
                = Inr (image_ref (ups ! (length (acc @ [?x]) + (j - (i + 1))))))
          \<and> altText (ups ! (length (acc @ [?x]) + (j - (i + 1))))
              = (if j < length alts \<and> alts ! j \<noteq> [] then alts ! j else defaultAltText)"
      by blast
    then show ?thesis by (simp only: idx)
  qed
  from len tk' all show ?case by blast
qed

lemma uploadImages_unfold:
  "images \<noteq> [] \<Longrightarrow> uploadImages P images alts ag =
     (if length (if length images > MAX_IMAGES_PER_POST then take MAX_IMAGES_PER_POST images else images)
         \<noteq> length (if length images > MAX_IMAGES_PER_POST then take MAX_IMAGES_PER_POST alts else alts)
      then
        (if length (if length images > MAX_IMAGES_PER_POST then take MAX_IMAGES_PER_POST images else images)
            < length (if length images > MAX_IMAGES_PER_POST then take MAX_IMAGES_PER_POST alts else alts)
         then (Inl InvalidArrayLength, ag)
         else upload_loop P
                (if length images > MAX_IMAGES_PER_POST then take MAX_IMAGES_PER_POST images else images)
                ((if length images > MAX_IMAGES_PER_POST then take MAX_IMAGES_PER_POST alts else alts)
                 @ replicate
                     (length (if length images > MAX_IMAGES_PER_POST then take MAX_IMAGES_PER_POST images else images)
                      - length (if length images > MAX_IMAGES_PER_POST then take MAX_IMAGES_PER_POST alts else alts))
                     defaultAltText)
                0 [] ag)
      else upload_loop P
             (if length images > MAX_IMAGES_PER_POST then take MAX_IMAGES_PER_POST images else images)
             (if length images > MAX_IMAGES_PER_POST then take MAX_IMAGES_PER_POST alts else alts)
             0 [] ag)"
  unfolding uploadImages_def by (simp add: Let_def)

lemma uploadImages_failing_image:
  assumes k: "k < length images" "k < MAX_IMAGES_PER_POST"
    and f: "\<forall>n. isl (uploadResult P n (images ! k))"
  shows "isl (fst (uploadImages P images alts ag))"
proof -
  let ?imgs = "if length images > MAX_IMAGES_PER_POST then take MAX_IMAGES_PER_POST images else images"
  from k have ne: "images \<noteq> []" by auto
  from k have k': "k < length ?imgs" and nth: "?imgs ! k = images ! k" by auto
  from f nth have f': "\<forall>n. isl (uploadResult P n (?imgs ! k))" by simp
  have loop: "isl (fst (upload_loop P ?imgs A 0 [] ag))" for A
    by (rule upload_loop_failing_image [OF _ k' f']) simp
  show ?thesis
    unfolding uploadImages_unfold [OF ne] using loop by (simp only: split: if_split) simp
qed

lemma alt_padding:
  assumes "j < n"
  shows "(let A = alts @ replicate (n - length alts) d in if j < length A \<and> A ! j \<noteq> [] then A ! j else d)
         = (if j < length alts \<and> alts ! j \<noteq> [] then alts ! j else d)"
  using assms by (auto simp: Let_def nth_append)

lemma uploadImages_success:
  assumes ok: "fst (uploadImages P images alts ag) = Inr ups"
  shows "length ups = min MAX_IMAGES_PER_POST (length images) \<and>
         (\<forall>j. j < min MAX_IMAGES_PER_POST (length images) \<longrightarrow>
            (\<exists>n. uploadResult P n (images ! j) = Inr (image_ref (ups ! j)))
            \<and> altText (ups ! j)
                = (if j < length alts \<and> alts ! j \<noteq> [] then alts ! j else defaultAltText))"
proof (cases "images = []")
  case True
  with ok show ?thesis by (simp add: uploadImages_def)
next
  case ne: False
  let ?imgs = "if length images > MAX_IMAGES_PER_POST then take MAX_IMAGES_PER_POST images else images"
  let ?alts = "if length images > MAX_IMAGES_PER_POST then take MAX_IMAGES_PER_POST alts else alts"
  let ?pad = "?alts @ replicate (length ?imgs - length ?alts) defaultAltText"
  have len: "length ?imgs = min MAX_IMAGES_PER_POST (length images)" by auto
  have nth: "?imgs ! j = images ! j" if "j < length ?imgs" for j using that by auto
  have alt: "(if j < length ?alts \<and> ?alts ! j \<noteq> [] then ?alts ! j else defaultAltText)
             = (if j < length alts \<and> alts ! j \<noteq> [] then alts ! j else defaultAltText)"
    if "j < length ?imgs" for j using that by auto
  from ok obtain A where A: "fst (upload_loop P ?imgs A 0 [] ag) = Inr ups"
    and Aalt: "\<forall>j. j < length ?imgs \<longrightarrow>
             (if j < length A \<and> A ! j \<noteq> [] then A ! j else defaultAltText)
             = (if j < length ?alts \<and> ?alts ! j \<noteq> [] then ?alts ! j else defaultAltText)"
  proof (cases "length ?imgs = length ?alts")
    case True
    with ok have "fst (upload_loop P ?imgs ?alts 0 [] ag) = Inr ups"
      unfolding uploadImages_unfold [OF ne] by simp
    then show ?thesis using that [of ?alts] by blast
  next
    case False
    with ok have lt: "\<not> length ?imgs < length ?alts"
      unfolding uploadImages_unfold [OF ne] by (auto split: if_splits)
    with ok False have 1: "fst (upload_loop P ?imgs ?pad 0 [] ag) = Inr ups"
      unfolding uploadImages_unfold [OF ne] by simp
    have 2: "(if j < length ?pad \<and> ?pad ! j \<noteq> [] then ?pad ! j else defaultAltText)
             = (if j < length ?alts \<and> ?alts ! j \<noteq> [] then ?alts ! j else defaultAltText)"
      if "j < length ?imgs" for j
      using alt_padding [OF that, of ?alts defaultAltText] by (simp only: Let_def)
    from 1 2 show ?thesis using that [of ?pad] by blast
  qed
  from upload_loop_success [OF A] have
    l: "length ups = length ?imgs" and
    e: "\<And>j. j < length ?imgs \<Longrightarrow>
          (\<exists>n. uploadResult P n (?imgs ! j) = Inr (image_ref (ups ! j)))
          \<and> altText (ups ! j) = (if j < length A \<and> A ! j \<noteq> [] then A ! j else defaultAltText)"
    by auto
  have "(\<exists>n. uploadResult P n (images ! j) = Inr (image_ref (ups ! j)))
        \<and> altText (ups ! j) = (if j < length alts \<and> alts ! j \<noteq> [] then alts ! j else defaultAltText)"
    if j: "j < min MAX_IMAGES_PER_POST (length images)" for j
  proof -
    from j len have j': "j < length ?imgs" by simp
    from e [OF j'] nth [OF j'] Aalt j' alt [OF j'] show ?thesis by (simp only:) 
  qed
  with l len show ?thesis by simp
qed

subsection \<open>Selection, upload and submit\<close>

lemmas publisher_eval =
  notifyBluesky_def login_def login_loop.simps uploadImages_def upload_loop.simps
  upload_attempts.simps createPost_def post_loop.simps truncatePostText_def
  MAX_RETRIES_def MAX_IMAGES_PER_POST_def MAX_POST_LENGTH_def RETRY_DELAY_MS_def
  defaultAltText_def Let_def

text \<open>
  C2, as the program has it. Of more than four candidate images \<open>uploadImages\<close> keeps
  the first four in the order in which it received them: when it returns, the \<open>j\<close>-th
  uploaded image is the blob the platform returned for the \<open>j\<close>-th input image, with
  the \<open>j\<close>-th alt text (the default one where that is missing or empty). Nothing is
  reordered by file name.
\<close>

theorem uploadImages_first_four_in_order:
  assumes "length images > MAX_IMAGES_PER_POST"
    and "fst (uploadImages P images alts ag) = Inr ups"
  shows "length ups = MAX_IMAGES_PER_POST \<and> MAX_IMAGES_PER_POST = 4 \<and>
         (\<forall>j. j < MAX_IMAGES_PER_POST \<longrightarrow>
            (\<exists>n. uploadResult P n (images ! j) = Inr (image_ref (ups ! j)))
            \<and> altText (ups ! j)
                = (if j < length alts \<and> alts ! j \<noteq> [] then alts ! j else defaultAltText))"
proof -
  from assms(1) have m: "min MAX_IMAGES_PER_POST (length images) = MAX_IMAGES_PER_POST" by simp
  from uploadImages_success [OF assms(2)] show ?thesis
    unfolding m by (simp add: MAX_IMAGES_PER_POST_def)
qed

theorem uploadImages_first_four_in_order_witness:
  "length fiveImages > MAX_IMAGES_PER_POST
   \<and> fst (uploadImages okPlatform fiveImages [''1'', ''2''] ag0)
       = Inr [\<lparr>image_ref = ''a_tornado'', altText = ''1''\<rparr>,
              \<lparr>image_ref = ''b_sig_tornado'', altText = ''2''\<rparr>,
              \<lparr>image_ref = ''c_tornado'', altText = defaultAltText\<rparr>,
              \<lparr>image_ref = ''d_sig_tornado'', altText = defaultAltText\<rparr>]
   \<and> length [\<lparr>image_ref = ''a_tornado'', altText = ''1''\<rparr>,
              \<lparr>image_ref = ''b_sig_tornado'', altText = ''2''\<rparr>,
              \<lparr>image_ref = ''c_tornado'', altText = defaultAltText\<rparr>,
              \<lparr>image_ref = ''d_sig_tornado'', altText = defaultAltText\<rparr>] = MAX_IMAGES_PER_POST
   \<and> (\<exists>n. uploadResult okPlatform n (fiveImages ! 3) = Inr ''d_sig_tornado'')"
proof -
  have l: "length fiveImages > MAX_IMAGES_PER_POST"
    by (simp add: fiveImages_def MAX_IMAGES_PER_POST_def)
  have r: "fst (uploadImages okPlatform fiveImages [''1'', ''2''] ag0)
       = Inr [\<lparr>image_ref = ''a_tornado'', altText = ''1''\<rparr>,
              \<lparr>image_ref = ''b_sig_tornado'', altText = ''2''\<rparr>,
              \<lparr>image_ref = ''c_tornado'', altText = defaultAltText\<rparr>,
              \<lparr>image_ref = ''d_sig_tornado'', altText = defaultAltText\<rparr>]"
    by (simp add: publisher_eval okPlatform_def ag0_def fiveImages_def)
  have 3: "(3::nat) < MAX_IMAGES_PER_POST" by (simp add: MAX_IMAGES_PER_POST_def)
  note T = uploadImages_first_four_in_order [OF l r]
  from T have len: "length [\<lparr>image_ref = ''a_tornado'', altText = ''1''\<rparr>,
              \<lparr>image_ref = ''b_sig_tornado'', altText = ''2''\<rparr>,
              \<lparr>image_ref = ''c_tornado'', altText = defaultAltText\<rparr>,
              \<lparr>image_ref = ''d_sig_tornado'', altText = defaultAltText\<rparr>] = MAX_IMAGES_PER_POST"
    by (rule conjunct1)
  from T 3 have "\<exists>n. uploadResult okPlatform n (fiveImages ! 3)
         = Inr (image_ref ([\<lparr>image_ref = ''a_tornado'', altText = ''1''\<rparr>,
              \<lparr>image_ref = ''b_sig_tornado'', altText = ''2''\<rparr>,
              \<lparr>image_ref = ''c_tornado'', altText = defaultAltText\<rparr>,
              \<lparr>image_ref = ''d_sig_tornado'', altText = defaultAltText\<rparr>] ! 3))"
    by blast
  then have ex: "\<exists>n. uploadResult okPlatform n (fiveImages ! 3) = Inr ''d_sig_tornado''"
    by simp
  from l r len ex show ?thesis by blast
qed

text \<open>
  The claim C2 as the specification states it fails: given the five candidates
  \<open>fiveImages\<close>, the uploaded images are the first four in the given order, which is
  not the order of \<open>specPrioritise\<close> (the two \<open>sig_\<close> images first). The four
  candidates of the claim's own example are uploaded in the given order as well.
\<close>

theorem uploadImages_does_not_prioritise:
  "map image_ref (projr (fst (uploadImages okPlatform fiveImages fiveImages ag0)))
     = [''a_tornado'', ''b_sig_tornado'', ''c_tornado'', ''d_sig_tornado'']
   \<and> specPrioritise fiveImages
     = [''b_sig_tornado'', ''d_sig_tornado'', ''a_tornado'', ''c_tornado'']
   \<and> map image_ref (projr (fst (uploadImages okPlatform fiveImages fiveImages ag0)))
     \<noteq> specPrioritise fiveImages
   \<and> map image_ref (projr (fst (uploadImages okPlatform (take 4 fiveImages) (take 4 fiveImages) ag0)))
     = [''a_tornado'', ''b_sig_tornado'', ''c_tornado'', ''d_sig_tornado'']"
proof -
  have 1: "map image_ref (projr (fst (uploadImages okPlatform fiveImages fiveImages ag0)))
     = [''a_tornado'', ''b_sig_tornado'', ''c_tornado'', ''d_sig_tornado'']"
    by (simp add: publisher_eval okPlatform_def ag0_def fiveImages_def)
  have 2: "specPrioritise fiveImages
     = [''b_sig_tornado'', ''d_sig_tornado'', ''a_tornado'', ''c_tornado'']"
    by (simp add: specPrioritise_def fiveImages_def)
  have 3: "map image_ref (projr (fst (uploadImages okPlatform (take 4 fiveImages) (take 4 fiveImages) ag0)))
     = [''a_tornado'', ''b_sig_tornado'', ''c_tornado'', ''d_sig_tornado'']"
    by (simp add: publisher_eval okPlatform_def ag0_def fiveImages_def)
  show ?thesis unfolding 1 2 3 by simp
qed

text \<open>
  C3, as the program has it. An image among the first four whose upload the platform
  rejects at every attempt makes \<open>uploadImages\<close> throw once the three attempts are used
  up, and \<open>notifyBluesky\<close> fails with it, whatever was uploaded before. When
  \<open>uploadImages\<close> returns, no image has been dropped: it returns one uploaded image
  for each of the (at most four) images it kept.
\<close>

theorem upload_exhaustion_fails_publish:
  "(k < length images \<and> k < MAX_IMAGES_PER_POST \<and> (\<forall>n. isl (uploadResult P n (images ! k)))
      \<longrightarrow> isl (fst (uploadImages P images alts ag))
          \<and> isl (fst (notifyBluesky P txt images alts ag)))
   \<and> (fst (uploadImages P images alts ag) = Inr ups
      \<longrightarrow> length ups = min MAX_IMAGES_PER_POST (length images))"
proof (intro conjI impI)
  assume a: "k < length images \<and> k < MAX_IMAGES_PER_POST
               \<and> (\<forall>n. isl (uploadResult P n (images ! k)))"
  then have up: "isl (fst (uploadImages P images alts ag'))" for ag'
    by (intro uploadImages_failing_image) auto
  from up show "isl (fst (uploadImages P images alts ag))" .
  obtain r ag1 where lg: "(if \<not> session ag then login P ag else (Inr (), ag)) = (r, ag1)"
    by (cases "if \<not> session ag then login P ag else (Inr (), ag)")
  show "isl (fst (notifyBluesky P txt images alts ag))"
  proof (cases r)
    case (Inl e)
    with lg show ?thesis by (simp add: notifyBluesky_def)
  next
    case (Inr u)
    obtain e ag2 where "uploadImages P images alts ag1 = (Inl e, ag2)"
      using up [of ag1] by (cases "uploadImages P images alts ag1") (auto simp: isl_def)
    with lg Inr show ?thesis by (simp add: notifyBluesky_def)
  qed
next
  assume "fst (uploadImages P images alts ag) = Inr ups"
  from uploadImages_success [OF this]
  show "length ups = min MAX_IMAGES_PER_POST (length images)" by simp
qed

theorem upload_exhaustion_fails_publish_witness:
  "(1 < length [''img1'', ''img2''] \<and> 1 < MAX_IMAGES_PER_POST
      \<and> (\<forall>n. isl (uploadResult secondUploadFails n ([''img1'', ''img2''] ! 1))))
   \<and> fst (notifyBluesky secondUploadFails ''t'' [''img1'', ''img2''] [''a'', ''b''] ag0)
       = Inl (UploadFailed 2 ''boom'')
   \<and> fst (uploadImages okPlatform [''img1'', ''img2''] [''a'', ''b''] ag0)
       = Inr [\<lparr>image_ref = ''img1'', altText = ''a''\<rparr>, \<lparr>image_ref = ''img2'', altText = ''b''\<rparr>]
   \<and> length [\<lparr>image_ref = ''img1'', altText = ''a''\<rparr>, \<lparr>image_ref = ''img2'', altText = ''b''\<rparr>]
       = min MAX_IMAGES_PER_POST (length [''img1'', ''img2''])"
proof -
  have h: "1 < length [''img1'', ''img2''] \<and> 1 < MAX_IMAGES_PER_POST
      \<and> (\<forall>n. isl (uploadResult secondUploadFails n ([''img1'', ''img2''] ! 1)))"
    by (simp add: secondUploadFails_def okPlatform_def MAX_IMAGES_PER_POST_def)
  have e: "fst (notifyBluesky secondUploadFails ''t'' [''img1'', ''img2''] [''a'', ''b''] ag0)
       = Inl (UploadFailed 2 ''boom'')"
    by (simp add: publisher_eval secondUploadFails_def okPlatform_def ag0_def)
  have o: "fst (uploadImages okPlatform [''img1'', ''img2''] [''a'', ''b''] ag0)
       = Inr [\<lparr>image_ref = ''img1'', altText = ''a''\<rparr>, \<lparr>image_ref = ''img2'', altText = ''b''\<rparr>]"
    by (simp add: publisher_eval okPlatform_def ag0_def)
  from upload_exhaustion_fails_publish
         [of 1 "[''img1'', ''img2'']" secondUploadFails "[''a'', ''b'']" ag0 "''t''"]
       upload_exhaustion_fails_publish
         [of _ "[''img1'', ''img2'']" okPlatform "[''a'', ''b'']" ag0 _
             "[\<lparr>image_ref = ''img1'', altText = ''a''\<rparr>, \<lparr>image_ref = ''img2'', altText = ''b''\<rparr>]"]
       h e o
  show ?thesis by blast
qed

text \<open>
  The claim C3 as the specification states it fails: of two images the first is uploaded
  and the second is rejected at each of its three attempts. The second image is not
  dropped: the publish fails, with one blob stored on the platform and no post created.
\<close>

theorem upload_exhaustion_not_dropped:
  "fst (notifyBluesky secondUploadFails ''t'' [''img1'', ''img2''] [''a'', ''b''] ag0)
     = Inl (UploadFailed 2 ''boom'')
   \<and> blobStore (snd (notifyBluesky secondUploadFails ''t'' [''img1'', ''img2''] [''a'', ''b''] ag0))
     = [''blob1'']
   \<and> posts (snd (notifyBluesky secondUploadFails ''t'' [''img1'', ''img2''] [''a'', ''b''] ag0)) = []"
  by (simp add: publisher_eval secondUploadFails_def okPlatform_def ag0_def)

text \<open>
  C4 fails on the program. The platform rejects the three attempts of \<open>createPost\<close>,
  the last one with a message containing \<open>RateLimitExceeded\<close>: the rate-limit branch
  waits and does not throw, the loop ends because the attempts are used up, and
  \<open>createPost\<close> returns normally although no post was created.
\<close>

theorem createPost_rate_limited_returns_normally:
  "createPost lastRateLimited ''t'' [] ag0 = (Inr (), ag0\<lparr>calls := 3, waited := 35000\<rparr>)
   \<and> posts (snd (createPost lastRateLimited ''t'' [] ag0)) = []
   \<and> fst (notifyBluesky lastRateLimited ''t'' [] [] (ag0\<lparr>session := True\<rparr>)) = Inr ()"
  by (simp add: publisher_eval lastRateLimited_def okPlatform_def ag0_def)

subsection \<open>Truncation\<close>

lemma truncatePostText_props:
  "(length txt \<le> MAX_POST_LENGTH \<longrightarrow> truncatePostText txt = txt)
   \<and> (length txt > MAX_POST_LENGTH \<longrightarrow>
        length (truncatePostText txt) = MAX_POST_LENGTH
        \<and> endsWith (truncatePostText txt) ''...''
        \<and> take (MAX_POST_LENGTH - 3) (truncatePostText txt) = take (MAX_POST_LENGTH - 3) txt)"
  by (simp add: truncatePostText_def MAX_POST_LENGTH_def endsWith_def)

lemma post_loop_posts:
  "posts (snd (post_loop P postRec attempts ag)) = posts ag
   \<or> posts (snd (post_loop P postRec attempts ag)) = posts ag @ [postRec]"
proof (induction P postRec attempts ag rule: post_loop.induct)
  case (1 P postRec attempts ag)
  show ?case
  proof (cases "attempts < MAX_RETRIES")
    case False
    then show ?thesis by (simp add: post_loop.simps [of P postRec attempts ag])
  next
    case lt: True
    show ?thesis
    proof (cases "postResult P (calls ag) postRec")
      case None
      with lt show ?thesis by (simp add: post_loop.simps [of P postRec attempts ag])
    next
      case (Some msg)
      show ?thesis
      proof (cases "msg \<noteq> [] \<and> includesStr msg ''RateLimitExceeded''")
        case True
        with lt Some "1.IH"(1) [OF lt Some True] show ?thesis
          by (simp add: post_loop.simps [of P postRec attempts ag])
      next
        case nr: False
        show ?thesis
        proof (cases "attempts + 1 < MAX_RETRIES")
          case True
          with lt Some nr "1.IH"(2) [OF lt Some nr True] show ?thesis
            by (auto simp add: post_loop.simps [of P postRec attempts ag])
        next
          case False
          with lt Some nr show ?thesis
            by (auto simp add: post_loop.simps [of P postRec attempts ag])
        qed
      qed
    qed
  qed
qed

lemma post_loop_accepted:
  "postResult P (calls ag) postRec = None \<Longrightarrow>
   post_loop P postRec 0 ag = (Inr (), ag\<lparr>calls := calls ag + 1, posts := posts ag @ [postRec]\<rparr>)"
  by (simp add: post_loop.simps [of P postRec 0 ag] MAX_RETRIES_def)

text \<open>
  C8. \<open>createPost\<close> submits one record \<open>r\<close> at every attempt: it adds no post or exactly
  \<open>r\<close>, and it adds \<open>r\<close> and returns when the platform accepts the first request. The
  text of \<open>r\<close> is the given text when that has at most 300 characters; when it is
  longer, the text of \<open>r\<close> has exactly 300 characters, ends in the ellipsis marker
  \<open>...\<close> and begins with the first 297 characters of the given text.
\<close>

theorem createPost_truncates:
  "\<exists>r. (posts (snd (createPost P txt images ag)) = posts ag
          \<or> posts (snd (createPost P txt images ag)) = posts ag @ [r])
       \<and> ((\<forall>q. postResult P (calls ag) q = None) \<longrightarrow>
            createPost P txt images ag
              = (Inr (), ag\<lparr>calls := calls ag + 1, posts := posts ag @ [r]\<rparr>))
       \<and> (length txt \<le> MAX_POST_LENGTH \<longrightarrow> post_text r = txt)
       \<and> (length txt > MAX_POST_LENGTH \<longrightarrow>
            length (post_text r) = MAX_POST_LENGTH
            \<and> endsWith (post_text r) ''...''
            \<and> take (MAX_POST_LENGTH - 3) (post_text r) = take (MAX_POST_LENGTH - 3) txt)
       \<and> MAX_POST_LENGTH = 300"
proof -
  let ?r = "\<lparr>post_text = truncatePostText txt,
              embed = (if length images > 0
                       then Some (map (\<lambda>img. (image_ref img, altText img)) images)
                       else None)\<rparr>"
  have cp: "createPost P txt images ag = post_loop P ?r 0 ag"
    by (simp add: createPost_def Let_def)
  have 1: "posts (snd (createPost P txt images ag)) = posts ag
          \<or> posts (snd (createPost P txt images ag)) = posts ag @ [?r]"
    unfolding cp by (rule post_loop_posts)
  have 2: "(\<forall>q. postResult P (calls ag) q = None) \<longrightarrow>
            createPost P txt images ag
              = (Inr (), ag\<lparr>calls := calls ag + 1, posts := posts ag @ [?r]\<rparr>)"
    unfolding cp by (simp add: post_loop_accepted)
  have t: "post_text ?r = truncatePostText txt" by simp
  have 3: "length txt \<le> MAX_POST_LENGTH \<longrightarrow> post_text ?r = txt"
    unfolding t using truncatePostText_props [of "txt"] by blast
  have 4: "length txt > MAX_POST_LENGTH \<longrightarrow>
            length (post_text ?r) = MAX_POST_LENGTH
            \<and> endsWith (post_text ?r) ''...''
            \<and> take (MAX_POST_LENGTH - 3) (post_text ?r) = take (MAX_POST_LENGTH - 3) txt"
    unfolding t using truncatePostText_props [of "txt"] by blast
  have 5: "MAX_POST_LENGTH = 300" by (simp add: MAX_POST_LENGTH_def)
  from 1 2 3 4 5 have "(posts (snd (createPost P txt images ag)) = posts ag
          \<or> posts (snd (createPost P txt images ag)) = posts ag @ [?r])
       \<and> ((\<forall>q. postResult P (calls ag) q = None) \<longrightarrow>
            createPost P txt images ag
              = (Inr (), ag\<lparr>calls := calls ag + 1, posts := posts ag @ [?r]\<rparr>))
       \<and> (length txt \<le> MAX_POST_LENGTH \<longrightarrow> post_text ?r = txt)
       \<and> (length txt > MAX_POST_LENGTH \<longrightarrow>
            length (post_text ?r) = MAX_POST_LENGTH
            \<and> endsWith (post_text ?r) ''...''
            \<and> take (MAX_POST_LENGTH - 3) (post_text ?r) = take (MAX_POST_LENGTH - 3) txt)
       \<and> MAX_POST_LENGTH = 300"
    by (intro conjI)
  then show ?thesis by (rule exI)
qed

theorem createPost_truncates_witness:
  "length (replicate 301 CHR ''x'') > MAX_POST_LENGTH
   \<and> (\<forall>q. postResult okPlatform (calls ag0) q = None)
   \<and> (\<exists>r. createPost okPlatform (replicate 301 CHR ''x'') [] ag0
              = (Inr (), ag0\<lparr>calls := calls ag0 + 1, posts := posts ag0 @ [r]\<rparr>)
          \<and> length (post_text r) = 300
          \<and> endsWith (post_text r) ''...''
          \<and> take 297 (post_text r) = take 297 (replicate 301 CHR ''x''))
   \<and> length ''short'' \<le> MAX_POST_LENGTH
   \<and> (\<exists>r. createPost okPlatform ''short'' [] ag0
              = (Inr (), ag0\<lparr>calls := calls ag0 + 1, posts := posts ag0 @ [r]\<rparr>)
          \<and> post_text r = ''short'')"
proof -
  have l: "length (replicate 301 CHR ''x'') > MAX_POST_LENGTH" by (simp add: MAX_POST_LENGTH_def)
  have s: "length ''short'' \<le> MAX_POST_LENGTH" by (simp add: MAX_POST_LENGTH_def)
  have a: "\<forall>q. postResult okPlatform (calls ag0) q = None" by (simp add: okPlatform_def)
  from createPost_truncates [of okPlatform "replicate 301 CHR ''x''" "[]" ag0] l a
  have long: "\<exists>r. createPost okPlatform (replicate 301 CHR ''x'') [] ag0
              = (Inr (), ag0\<lparr>calls := calls ag0 + 1, posts := posts ag0 @ [r]\<rparr>)
          \<and> length (post_text r) = 300
          \<and> endsWith (post_text r) ''...''
          \<and> take 297 (post_text r) = take 297 (replicate 301 CHR ''x'')"
    by (simp only: MAX_POST_LENGTH_def) (elim exE conjE, simp, blast)
  from createPost_truncates [of okPlatform "''short''" "[]" ag0] s a
  have short: "\<exists>r. createPost okPlatform ''short'' [] ag0
              = (Inr (), ag0\<lparr>calls := calls ag0 + 1, posts := posts ag0 @ [r]\<rparr>)
          \<and> post_text r = ''short''"
    by blast
  from l a long s short show ?thesis by (intro conjI)
qed

section \<open>Properties of the Directory Walker\<close>

lemmas regex_eval =
  YEAR_MONTH_REGEX_def YEAR_MONTH_URL_REGEX_def DAY_REGEX_def RUN_REGEX_def
  tailCapture_def isDigit_def isRunToken_def Let_def

lemmas walker_eval =
  findLatestDirectoryUrl_def fetchHtml_def directoryStep_def isDirectoryLink_def
  site_def sitePages_def rootUrl_def runDirUrl0_def resolveSimple_def
  dirLink_def fileLink_def plainLink_def

lemma directoryStep_nomatch:
  "(\<And>h t. \<not> linkMatches pat a h t) \<Longrightarrow> directoryStep N pageUrl pat a st = st"
  by (cases st) (auto simp: directoryStep_def linkMatches_def split: option.splits)

lemma directoryStep_match:
  "linkMatches pat a h t \<Longrightarrow>
   directoryStep N pageUrl pat a (v, u) =
     (if (case v of None \<Rightarrow> True | Some v0 \<Rightarrow> t > v0)
      then (Some t, (case resolveUrl N h pageUrl of Some u' \<Rightarrow> Some u' | None \<Rightarrow> u))
      else (v, u))"
  by (simp add: directoryStep_def linkMatches_def)

lemma linkMatches_fun: "linkMatches pat a h t \<Longrightarrow> linkMatches pat a h' t' \<Longrightarrow> h' = h \<and> t' = t"
  by (auto simp: linkMatches_def)

lemma walker_invariant:
  assumes "\<forall>a\<in>set xs. \<forall>h t. linkMatches pat a h t \<longrightarrow> resolveUrl N h pageUrl \<noteq> None"
  shows "case fold (directoryStep N pageUrl pat) xs (None, None) of
           (None, u) \<Rightarrow> u = None \<and> (\<forall>a\<in>set xs. \<forall>h t. \<not> linkMatches pat a h t)
         | (Some t, u) \<Rightarrow>
             (\<exists>a\<in>set xs. \<exists>h. linkMatches pat a h t \<and> u = resolveUrl N h pageUrl)
             \<and> (\<forall>a\<in>set xs. \<forall>h t'. linkMatches pat a h t' \<longrightarrow> t' \<le> t)"
  using assms
proof (induction xs rule: rev_induct)
  case Nil
  show ?case by simp
next
  case (snoc x xs)
  obtain v u where st: "fold (directoryStep N pageUrl pat) xs (None, None) = (v, u)"
    by (cases "fold (directoryStep N pageUrl pat) xs (None, None)")
  from snoc.prems have "\<forall>a\<in>set xs. \<forall>h t. linkMatches pat a h t \<longrightarrow> resolveUrl N h pageUrl \<noteq> None"
    by simp
  from snoc.IH [OF this] have IH: "case (v, u) of
           (None, u) \<Rightarrow> u = None \<and> (\<forall>a\<in>set xs. \<forall>h t. \<not> linkMatches pat a h t)
         | (Some t, u) \<Rightarrow>
             (\<exists>a\<in>set xs. \<exists>h. linkMatches pat a h t \<and> u = resolveUrl N h pageUrl)
             \<and> (\<forall>a\<in>set xs. \<forall>h t'. linkMatches pat a h t' \<longrightarrow> t' \<le> t)"
    unfolding st .
  have fold_snoc: "fold (directoryStep N pageUrl pat) (xs @ [x]) (None, None)
                     = directoryStep N pageUrl pat x (v, u)"
    by (simp add: st)
  show ?case
  proof (cases "\<exists>h t. linkMatches pat x h t")
    case False
    then have same: "directoryStep N pageUrl pat x s = s" for s
      by (intro directoryStep_nomatch) blast
    show ?thesis
    proof (cases v)
      case None
      with IH False show ?thesis unfolding fold_snoc same by simp
    next
      case (Some v0)
      with IH have ex: "\<exists>a\<in>set xs. \<exists>h. linkMatches pat a h v0 \<and> u = resolveUrl N h pageUrl"
        and mx: "\<forall>a\<in>set xs. \<forall>h t'. linkMatches pat a h t' \<longrightarrow> t' \<le> v0" by simp_all
      from ex have ex': "\<exists>a\<in>set (xs @ [x]). \<exists>h. linkMatches pat a h v0 \<and> u = resolveUrl N h pageUrl"
        by auto
      from mx False have mx': "\<forall>a\<in>set (xs @ [x]). \<forall>h t'. linkMatches pat a h t' \<longrightarrow> t' \<le> v0"
        by auto
      from ex' mx' show ?thesis unfolding fold_snoc same Some by simp
    qed
  next
    case True
    then obtain h t where m: "linkMatches pat x h t" by blast
    from snoc.prems m obtain u' where r: "resolveUrl N h pageUrl = Some u'" by auto
    have only: "t' = t" if "linkMatches pat x h' t'" for h' t'
      using linkMatches_fun [OF m that] by simp
    have new: "\<exists>a\<in>set (xs @ [x]). \<exists>h. linkMatches pat a h t \<and> Some u' = resolveUrl N h pageUrl"
      using m r by auto
    show ?thesis
    proof (cases v)
      case None
      with IH have none: "\<forall>a\<in>set xs. \<forall>h t. \<not> linkMatches pat a h t" by simp
      have step: "directoryStep N pageUrl pat x (v, u) = (Some t, Some u')"
        using None r by (simp add: directoryStep_match [OF m])
      have "\<forall>a\<in>set (xs @ [x]). \<forall>h t'. linkMatches pat a h t' \<longrightarrow> t' \<le> t"
        using none only by auto
      with new show ?thesis unfolding fold_snoc step by simp
    next
      case (Some v0)
      with IH have ex: "\<exists>a\<in>set xs. \<exists>h. linkMatches pat a h v0 \<and> u = resolveUrl N h pageUrl"
        and mx: "\<forall>a\<in>set xs. \<forall>h t'. linkMatches pat a h t' \<longrightarrow> t' \<le> v0" by simp_all
      show ?thesis
      proof (cases "t > v0")
        case True
        have step: "directoryStep N pageUrl pat x (v, u) = (Some t, Some u')"
          using Some True r by (simp add: directoryStep_match [OF m])
        have "t' \<le> t" if "a \<in> set (xs @ [x])" "linkMatches pat a h' t'" for a h' t'
        proof (cases "a = x")
          case True
          with that only show ?thesis by simp
        next
          case False
          with that mx have "t' \<le> v0" by auto
          with \<open>t > v0\<close> show ?thesis by simp
        qed
        then have "\<forall>a\<in>set (xs @ [x]). \<forall>h t'. linkMatches pat a h t' \<longrightarrow> t' \<le> t" by blast
        with new show ?thesis unfolding fold_snoc step by simp
      next
        case False
        have step: "directoryStep N pageUrl pat x (v, u) = (Some v0, u)"
          using Some False by (simp add: directoryStep_match [OF m])
        have "t' \<le> v0" if "a \<in> set (xs @ [x])" "linkMatches pat a h' t'" for a h' t'
        proof (cases "a = x")
          case True
          with that only have "t' = t" by simp
          with False show ?thesis by simp
        next
          case False
          with that mx show ?thesis by auto
        qed
        then have mx': "\<forall>a\<in>set (xs @ [x]). \<forall>h t'. linkMatches pat a h t' \<longrightarrow> t' \<le> v0" by blast
        from ex have "\<exists>a\<in>set (xs @ [x]). \<exists>h. linkMatches pat a h v0 \<and> u = resolveUrl N h pageUrl"
          by auto
        with mx' show ?thesis unfolding fold_snoc step by simp
      qed
    qed
  qed
qed


text \<open>
  C6, as the program has it. When the listing has at least one link of class
  \<open>directory\<close> whose non-empty href the pattern matches with a non-empty token, and the
  hrefs of such links resolve against the listing URL, the walker returns the resolved
  URL of one of these links, and the token of that link is greatest among the tokens of
  all of them in the lexicographic order of strings.
\<close>

theorem findLatestDirectoryUrl_greatest:
  assumes page: "htmlAt N pageUrl = Inr page"
    and some: "\<exists>a\<in>set page. \<exists>h t. isDirectoryLink a \<and> linkMatches pat a h t"
    and res: "\<forall>a\<in>set page. \<forall>h t. isDirectoryLink a \<and> linkMatches pat a h t
                \<longrightarrow> resolveUrl N h pageUrl \<noteq> None"
  shows "\<exists>a\<in>set page. \<exists>h t u.
           isDirectoryLink a \<and> linkMatches pat a h t
           \<and> (\<forall>a'\<in>set page. \<forall>h' t'. isDirectoryLink a' \<and> linkMatches pat a' h' t' \<longrightarrow> t' \<le> t)
           \<and> resolveUrl N h pageUrl = Some u
           \<and> findLatestDirectoryUrl N pageUrl pat = Inr (Some u)"
proof -
  let ?D = "filter isDirectoryLink page"
  obtain v u where st: "fold (directoryStep N pageUrl pat) ?D (None, None) = (v, u)"
    by (cases "fold (directoryStep N pageUrl pat) ?D (None, None)")
  have ret: "findLatestDirectoryUrl N pageUrl pat = Inr u"
    using page st by (simp add: findLatestDirectoryUrl_def fetchHtml_def)
  from res have "\<forall>a\<in>set ?D. \<forall>h t. linkMatches pat a h t \<longrightarrow> resolveUrl N h pageUrl \<noteq> None"
    by auto
  from walker_invariant [OF this] have inv: "case (v, u) of
           (None, u) \<Rightarrow> u = None \<and> (\<forall>a\<in>set ?D. \<forall>h t. \<not> linkMatches pat a h t)
         | (Some t, u) \<Rightarrow>
             (\<exists>a\<in>set ?D. \<exists>h. linkMatches pat a h t \<and> u = resolveUrl N h pageUrl)
             \<and> (\<forall>a\<in>set ?D. \<forall>h t'. linkMatches pat a h t' \<longrightarrow> t' \<le> t)"
    unfolding st .
  from some obtain a0 h0 t0 where "a0 \<in> set ?D" "linkMatches pat a0 h0 t0" by auto
  with inv obtain t where v: "v = Some t" by (cases v) auto
  from inv obtain a h where a: "a \<in> set ?D" "linkMatches pat a h t" "u = resolveUrl N h pageUrl"
    and mx: "\<forall>a\<in>set ?D. \<forall>h t'. linkMatches pat a h t' \<longrightarrow> t' \<le> t"
    unfolding v by auto
  from a have ap: "a \<in> set page" "isDirectoryLink a" by auto
  with a res obtain u' where u': "resolveUrl N h pageUrl = Some u'" by blast
  from mx have mx': "\<forall>a'\<in>set page. \<forall>h' t'. isDirectoryLink a' \<and> linkMatches pat a' h' t' \<longrightarrow> t' \<le> t"
    by auto
  from ret a(3) u' have "findLatestDirectoryUrl N pageUrl pat = Inr (Some u')" by simp
  with ap a(2) mx' u' show ?thesis by blast
qed


theorem findLatestDirectoryUrl_greatest_witness:
  "htmlAt site rootUrl = Inr [dirLink ''/202503/'', dirLink ''/202504/'']
   \<and> isDirectoryLink (dirLink ''/202504/'')
   \<and> linkMatches YEAR_MONTH_REGEX (dirLink ''/202504/'') ''/202504/'' ''202504''
   \<and> (\<exists>a\<in>set [dirLink ''/202503/'', dirLink ''/202504/'']. \<exists>h t u.
         isDirectoryLink a \<and> linkMatches YEAR_MONTH_REGEX a h t
         \<and> (\<forall>a'\<in>set [dirLink ''/202503/'', dirLink ''/202504/'']. \<forall>h' t'.
               isDirectoryLink a' \<and> linkMatches YEAR_MONTH_REGEX a' h' t' \<longrightarrow> t' \<le> t)
         \<and> resolveUrl site h rootUrl = Some u
         \<and> findLatestDirectoryUrl site rootUrl YEAR_MONTH_REGEX = Inr (Some u))
   \<and> findLatestDirectoryUrl site rootUrl YEAR_MONTH_REGEX = Inr (Some ''http://nado.test/202504/'')"
proof -
  have p: "htmlAt site rootUrl = Inr [dirLink ''/202503/'', dirLink ''/202504/'']"
    by (simp add: site_def sitePages_def rootUrl_def)
  have d: "isDirectoryLink (dirLink ''/202504/'')"
    by (simp add: isDirectoryLink_def dirLink_def)
  have m: "linkMatches YEAR_MONTH_REGEX (dirLink ''/202504/'') ''/202504/'' ''202504''"
    by (simp add: linkMatches_def dirLink_def regex_eval)
  from d m have some: "\<exists>a\<in>set [dirLink ''/202503/'', dirLink ''/202504/'']. \<exists>h t.
         isDirectoryLink a \<and> linkMatches YEAR_MONTH_REGEX a h t"
    by auto
  have res: "\<forall>a\<in>set [dirLink ''/202503/'', dirLink ''/202504/'']. \<forall>h t.
         isDirectoryLink a \<and> linkMatches YEAR_MONTH_REGEX a h t
           \<longrightarrow> resolveUrl site h rootUrl \<noteq> None"
    by (simp add: site_def resolveSimple_def)
  have v: "findLatestDirectoryUrl site rootUrl YEAR_MONTH_REGEX = Inr (Some ''http://nado.test/202504/'')"
    by (simp add: walker_eval regex_eval)
  from findLatestDirectoryUrl_greatest [OF p some res] p d m v show ?thesis by blast
qed

text \<open>
  The claim C6 as the specification states it fails: the only hyperlink of the listing
  matches the month pattern, but it does not carry the class \<open>directory\<close>, so the
  walker does not look at it and returns \<open>null\<close>.
\<close>

theorem findLatestDirectoryUrl_ignores_plain_links:
  "htmlAt plainSite rootUrl = Inr [plainLink ''/202504/'']
   \<and> linkMatches YEAR_MONTH_REGEX (plainLink ''/202504/'') ''/202504/'' ''202504''
   \<and> resolveUrl plainSite ''/202504/'' rootUrl = Some ''http://nado.test/202504/''
   \<and> findLatestDirectoryUrl plainSite rootUrl YEAR_MONTH_REGEX = Inr None"
  by (simp add: plainSite_def walker_eval linkMatches_def regex_eval)

text \<open>
  Outside the statement above: when the href of a new greatest token does not resolve,
  the token is recorded all the same and the URL of an earlier link stays. Here the
  token \<open>20250408\<close> is the greatest, and the URL returned is that of \<open>20250407\<close>.
\<close>

lemma findLatestDirectoryUrl_keeps_earlier_url:
  "DAY_REGEX ''/202504/20250407/'' = Some ''20250407''
   \<and> DAY_REGEX ''http://[/20250408/'' = Some ''20250408''
   \<and> resolveUrl badHrefSite ''http://[/20250408/'' ''http://nado.test/202504/'' = None
   \<and> findLatestDirectoryUrl badHrefSite ''http://nado.test/202504/'' DAY_REGEX
       = Inr (Some ''http://nado.test/202504/20250407/'')"
  by (simp add: badHrefSite_def findLatestDirectoryUrl_def fetchHtml_def directoryStep_def
        isDirectoryLink_def dirLink_def resolveSimple_def regex_eval)

section \<open>Properties of the Run Locator\<close>

lemma tailCapture_Some: "tailCapture n G s = Some w \<Longrightarrow> G w \<and> length w = n"
  by (auto simp: tailCapture_def Let_def split: if_splits)

lemma latestDirectory_Some:
  "latestDirectory N pageUrl pat = Some url \<Longrightarrow> findLatestDirectoryUrl N pageUrl pat = Inr (Some url)"
  by (auto simp: latestDirectory_def split: sum.splits option.splits if_splits)

lemma captured_Some: "captured re url = Some w \<Longrightarrow> re url = Some w"
  by (auto simp: captured_def split: option.splits if_splits)

lemma findLatestRunInfo_Some:
  assumes "findLatestRunInfo N MONITOR_URL = Some info"
  shows "\<exists>latestYearMonthUrl latestDayUrl dayYYYYMMDD runTime.
           findLatestDirectoryUrl N MONITOR_URL YEAR_MONTH_REGEX = Inr (Some latestYearMonthUrl)
           \<and> findLatestDirectoryUrl N latestYearMonthUrl DAY_REGEX = Inr (Some latestDayUrl)
           \<and> DAY_REGEX latestDayUrl = Some dayYYYYMMDD
           \<and> findLatestDirectoryUrl N latestDayUrl RUN_REGEX = Inr (Some (runUrl info))
           \<and> RUN_REGEX (runUrl info) = Some runTime
           \<and> runId info = dayYYYYMMDD @ ''_'' @ runTime"
proof -
  from assms obtain ymUrl where 1: "latestDirectory N MONITOR_URL YEAR_MONTH_REGEX = Some ymUrl"
    by (auto simp: findLatestRunInfo_def split: option.splits)
  from assms 1 obtain ym where 2: "captured YEAR_MONTH_URL_REGEX ymUrl = Some ym"
    by (auto simp: findLatestRunInfo_def split: option.splits)
  from assms 1 2 obtain dayUrl where 3: "latestDirectory N ymUrl DAY_REGEX = Some dayUrl"
    by (auto simp: findLatestRunInfo_def split: option.splits)
  from assms 1 2 3 obtain date where 4: "captured DAY_REGEX dayUrl = Some date"
    by (auto simp: findLatestRunInfo_def split: option.splits)
  from assms 1 2 3 4 obtain rUrl where 5: "latestDirectory N dayUrl RUN_REGEX = Some rUrl"
    by (auto simp: findLatestRunInfo_def split: option.splits)
  from assms 1 2 3 4 5 obtain tc where 6: "captured RUN_REGEX rUrl = Some tc"
    by (auto simp: findLatestRunInfo_def split: option.splits)
  from assms 1 2 3 4 5 6 have info: "info = \<lparr>runId = date @ ''_'' @ tc, runUrl = rUrl\<rparr>"
    by (simp add: findLatestRunInfo_def)
  from latestDirectory_Some [OF 1] latestDirectory_Some [OF 3] latestDirectory_Some [OF 5]
       captured_Some [OF 4] captured_Some [OF 6] info
  show ?thesis by auto
qed

lemma digit_not_space: "isDigit c \<Longrightarrow> \<not> isWhiteSpace c"
  by (auto simp: isDigit_def isWhiteSpace_def)

lemma findLatestRunInfo_canonical:
  assumes "findLatestRunInfo N MONITOR_URL = Some info"
  shows "trim (runId info) = runId info"
proof -
  from findLatestRunInfo_Some [OF assms] obtain dayUrl date tc where
    d: "DAY_REGEX dayUrl = Some date" and t: "RUN_REGEX (runUrl info) = Some tc"
    and r: "runId info = date @ ''_'' @ tc" by blast
  from d have dd: "list_all isDigit date" and dl: "length date = 8"
    using tailCapture_Some [of 8 "list_all isDigit" dayUrl date] by (simp_all add: DAY_REGEX_def)
  from t have "isRunToken tc"
    using tailCapture_Some [of 4 isRunToken "runUrl info" tc] by (simp add: RUN_REGEX_def)
  then obtain b c where tc: "tc = [CHR ''t'', b, c, CHR ''z'']"
    by (auto simp: isRunToken_def split: list.splits)
  from dl obtain x xs where date: "date = x # xs" by (cases date) auto
  with dd have "isDigit x" by simp
  then have h: "\<not> isWhiteSpace (hd (runId info))" by (simp add: r date digit_not_space)
  have l: "\<not> isWhiteSpace (last (runId info))" by (simp add: r tc isWhiteSpace_def)
  from h l show ?thesis by (intro trim_canonical) simp
qed

text \<open>
  C5. Whenever the Run Locator succeeds, the run identifier is the date token that
  \<open>DAY_REGEX\<close> captures from the URL found at the day stage, an underscore, and the
  time token that \<open>RUN_REGEX\<close> captures from the URL found at the run stage, which is
  the run URL returned.
\<close>

theorem findLatestRunInfo_runId:
  assumes "findLatestRunInfo N MONITOR_URL = Some info"
  shows "\<exists>latestYearMonthUrl latestDayUrl dayYYYYMMDD runTime.
           findLatestDirectoryUrl N latestYearMonthUrl DAY_REGEX = Inr (Some latestDayUrl)
           \<and> DAY_REGEX latestDayUrl = Some dayYYYYMMDD
           \<and> findLatestDirectoryUrl N latestDayUrl RUN_REGEX = Inr (Some (runUrl info))
           \<and> RUN_REGEX (runUrl info) = Some runTime
           \<and> runId info = dayYYYYMMDD @ ''_'' @ runTime"
  using findLatestRunInfo_Some [OF assms] by blast

theorem findLatestRunInfo_runId_witness:
  "findLatestRunInfo site rootUrl = Some \<lparr>runId = ''20250408_t00z'', runUrl = runDirUrl0\<rparr>
   \<and> DAY_REGEX ''http://nado.test/202504/20250408/'' = Some ''20250408''
   \<and> RUN_REGEX runDirUrl0 = Some ''t00z''
   \<and> (\<exists>latestYearMonthUrl latestDayUrl dayYYYYMMDD runTime.
           findLatestDirectoryUrl site latestYearMonthUrl DAY_REGEX = Inr (Some latestDayUrl)
           \<and> DAY_REGEX latestDayUrl = Some dayYYYYMMDD
           \<and> findLatestDirectoryUrl site latestDayUrl RUN_REGEX = Inr (Some runDirUrl0)
           \<and> RUN_REGEX runDirUrl0 = Some runTime
           \<and> ''20250408_t00z'' = dayYYYYMMDD @ ''_'' @ runTime)"
proof -
  have f: "findLatestRunInfo site rootUrl = Some \<lparr>runId = ''20250408_t00z'', runUrl = runDirUrl0\<rparr>"
    by (simp add: findLatestRunInfo_def latestDirectory_def captured_def walker_eval regex_eval)
  have d: "DAY_REGEX ''http://nado.test/202504/20250408/'' = Some ''20250408''"
    by (simp add: regex_eval)
  have r: "RUN_REGEX runDirUrl0 = Some ''t00z''"
    by (simp add: regex_eval runDirUrl0_def)
  from findLatestRunInfo_runId [OF f] f d r show ?thesis by simp
qed

section \<open>Properties of the Image Selector\<close>

lemmas tornado_eval =
  TORNADO_IMG_REGEX_def matchTornadoHere_def matchTornado_def matchRestPng_def
  matchLiteral_def lower_def isLineTerminator_def

lemma TORNADO_IMG_REGEX_empty: "\<not> TORNADO_IMG_REGEX []"
  by (simp add: TORNADO_IMG_REGEX_def matchTornadoHere_def matchLiteral_def)

lemma set_imageStep:
  "set (imageStep N base a acc) =
     set acc \<union> {u. \<exists>h. href a = Some h \<and> TORNADO_IMG_REGEX h
                      \<and> \<not> includesStr h ''abs_calib'' \<and> \<not> includesStr h ''life_risk''
                      \<and> resolveUrl N h base = Some u}"
  using TORNADO_IMG_REGEX_empty
  by (auto simp: imageStep_def split: option.splits)

lemma set_fold_imageStep:
  "set (fold (imageStep N base) page acc) =
     set acc \<union> {u. \<exists>a\<in>set page. \<exists>h. href a = Some h \<and> TORNADO_IMG_REGEX h
                      \<and> \<not> includesStr h ''abs_calib'' \<and> \<not> includesStr h ''life_risk''
                      \<and> resolveUrl N h base = Some u}"
proof (induction page arbitrary: acc)
  case Nil
  show ?case by simp
next
  case (Cons a page)
  have "set (fold (imageStep N base) (a # page) acc)
          = set (imageStep N base a acc)
            \<union> {u. \<exists>a\<in>set page. \<exists>h. href a = Some h \<and> TORNADO_IMG_REGEX h
                      \<and> \<not> includesStr h ''abs_calib'' \<and> \<not> includesStr h ''life_risk''
                      \<and> resolveUrl N h base = Some u}"
    by (simp add: Cons.IH)
  then show ?case unfolding set_imageStep by auto
qed

text \<open>
  C7. The Image Selector returns exactly the resolved hrefs of the links whose href
  matches the tornado image pattern and contains neither \<open>abs_calib\<close> nor
  \<open>life_risk\<close>: a link is included only when it matches and contains no exclusion
  substring, and a link whose href contains one contributes nothing, whether it matches
  the pattern or not.
\<close>

theorem findTornadoImageUrls_selects:
  assumes "htmlAt N runDirUrl = Inr page"
  shows "\<exists>urls. findTornadoImageUrls N runDirUrl = Inr urls \<and>
           set urls = {u. \<exists>a\<in>set page. \<exists>h. href a = Some h
                            \<and> TORNADO_IMG_REGEX h
                            \<and> \<not> includesStr h ''abs_calib'' \<and> \<not> includesStr h ''life_risk''
                            \<and> resolveUrl N h runDirUrl = Some u}"
proof -
  have "findTornadoImageUrls N runDirUrl = Inr (fold (imageStep N runDirUrl) page [])"
    using assms by (simp add: findTornadoImageUrls_def fetchHtml_def)
  then show ?thesis by (simp add: set_fold_imageStep)
qed


theorem findTornadoImageUrls_selects_witness:
  "htmlAt site runDirUrl0 = Inr runPage
   \<and> TORNADO_IMG_REGEX ''a_tornado_abs_calib_1.png''
   \<and> includesStr ''a_tornado_abs_calib_1.png'' ''abs_calib''
   \<and> findTornadoImageUrls site runDirUrl0
       = Inr [''http://nado.test/202504/20250408/t00z/a_tornado_1.png'',
              ''http://nado.test/202504/20250408/t00z/a_sig_tornado_1.png'']
   \<and> (\<exists>urls. findTornadoImageUrls site runDirUrl0 = Inr urls \<and>
           set urls = {u. \<exists>a\<in>set runPage. \<exists>h. href a = Some h
                            \<and> TORNADO_IMG_REGEX h
                            \<and> \<not> includesStr h ''abs_calib'' \<and> \<not> includesStr h ''life_risk''
                            \<and> resolveUrl site h runDirUrl0 = Some u})"
proof -
  have p: "htmlAt site runDirUrl0 = Inr runPage"
    by (simp add: site_def sitePages_def runDirUrl0_def)
  have t1: "TORNADO_IMG_REGEX ''a_tornado_1.png''" by (simp add: tornado_eval)
  have t2: "TORNADO_IMG_REGEX ''a_sig_tornado_1.png''" by (simp add: tornado_eval)
  have t3: "TORNADO_IMG_REGEX ''a_tornado_abs_calib_1.png''" by (simp add: tornado_eval)
  have t4: "\<not> TORNADO_IMG_REGEX ''a_wind_1.png''" by (simp add: tornado_eval)
  have i: "includesStr ''a_tornado_abs_calib_1.png'' ''abs_calib''" by simp
  have v: "findTornadoImageUrls site runDirUrl0
       = Inr [''http://nado.test/202504/20250408/t00z/a_tornado_1.png'',
              ''http://nado.test/202504/20250408/t00z/a_sig_tornado_1.png'']"
    by (simp add: findTornadoImageUrls_def fetchHtml_def imageStep_def site_def sitePages_def
          runDirUrl0_def runPage_def fileLink_def resolveSimple_def t1 t2 t3 t4)
  from findTornadoImageUrls_selects [OF p] p t3 i v show ?thesis by blast
qed

section \<open>Properties of the Orchestrator\<close>

lemma read_healthy:
  "healthy fs \<Longrightarrow>
   readLastProcessedRunId fs =
     (Inr (case fileContent fs of
             None \<Rightarrow> None
           | Some content \<Rightarrow> if trim content = [] then None else Some (trim content)),
      fs\<lparr>dirExists := True\<rparr>)"
  by (simp add: readLastProcessedRunId_def ensure_healthy healthy_def Let_def split: option.splits)

lemma write_healthy:
  "healthy fs \<Longrightarrow>
   writeLastProcessedRunId r fs = (Inr (), fs\<lparr>dirExists := True, fileContent := Some (trim r)\<rparr>)"
  by (simp add: writeLastProcessedRunId_def ensure_healthy healthy_def)

lemma ensure_keeps_file: "fileContent (snd (ensureStateDirectoryExists fs)) = fileContent fs"
  by (simp add: ensureStateDirectoryExists_def)

lemma read_keeps_file: "fileContent (snd (readLastProcessedRunId fs)) = fileContent fs"
proof (cases "ensureStateDirectoryExists fs")
  case (Pair r fs')
  with ensure_keeps_file [of fs] have "fileContent fs' = fileContent fs" by simp
  with Pair show ?thesis
    by (cases r) (simp_all add: readLastProcessedRunId_def Let_def split: option.splits)
qed

text \<open>
  C1, as the program has it. In a cycle that finds a run other than the stored one and
  obtains its image list, on a state store that refuses nothing, the new run identifier
  is written whatever the platform answers: after an empty image list, and after the
  loop over the images whether the posts succeeded or failed.
\<close>

theorem state_written_after_processing:
  assumes "\<not> isProcessing st" and "healthy (disk st)"
    and "findLatestRunInfo N MONITOR_URL = Some latestRun"
    and "fst (readLastProcessedRunId (disk st)) \<noteq> Inr (Some (runId latestRun))"
    and "findTornadoImageUrls N (runUrl latestRun) = Inr imageUrls"
  shows "fileContent (disk (checkNadocast N P MONITOR_URL st)) = Some (runId latestRun)"
proof -
  from assms(2) have h1: "healthy (disk st\<lparr>dirExists := True\<rparr>)" by (simp add: healthy_def)
  from assms(4) have new: "Some (runId latestRun)
      \<noteq> (case fileContent (disk st) of
            None \<Rightarrow> None
          | Some content \<Rightarrow> if trim content = [] then None else Some (trim content))"
    unfolding read_healthy [OF assms(2)] by auto
  have w: "fileContent (disk (snd (checkBody N P MONITOR_URL (st\<lparr>isProcessing := True\<rparr>))))
             = Some (trim (runId latestRun))"
    using assms(3,5) new
    by (simp add: checkBody_def read_healthy [OF assms(2)] write_healthy [OF h1] Let_def)
  with assms(1) findLatestRunInfo_canonical [OF assms(3)] show ?thesis
    by (simp add: checkNadocast_def)
qed

lemmas orchestrator_eval =
  checkNadocast_def checkBody_def processImage_def fetchImages_def filenameOf_def
  readLastProcessedRunId_def writeLastProcessedRunId_def ensureStateDirectoryExists_def
  trim_def isWhiteSpace_def st0_def st1_def fs0_def ag0_def Let_def

lemma site_latest:
  "findLatestRunInfo site rootUrl = Some \<lparr>runId = ''20250408_t00z'', runUrl = runDirUrl0\<rparr>"
  by (simp add: findLatestRunInfo_def latestDirectory_def captured_def walker_eval regex_eval)

lemma site_images:
  "findTornadoImageUrls site runDirUrl0
     = Inr [''http://nado.test/202504/20250408/t00z/a_tornado_1.png'',
            ''http://nado.test/202504/20250408/t00z/a_sig_tornado_1.png'']"
proof -
  have t1: "TORNADO_IMG_REGEX ''a_tornado_1.png''" by (simp add: tornado_eval)
  have t2: "TORNADO_IMG_REGEX ''a_sig_tornado_1.png''" by (simp add: tornado_eval)
  have t3: "TORNADO_IMG_REGEX ''a_tornado_abs_calib_1.png''" by (simp add: tornado_eval)
  have t4: "\<not> TORNADO_IMG_REGEX ''a_wind_1.png''" by (simp add: tornado_eval)
  show ?thesis
    by (simp add: findTornadoImageUrls_def fetchHtml_def imageStep_def site_def sitePages_def
          runDirUrl0_def runPage_def fileLink_def resolveSimple_def t1 t2 t3 t4)
qed

lemma loginFails_notify:
  "notifyBluesky loginFails txt bufs alts
     \<lparr>session = False, calls = n, blobStore = [], posts = [], waited = w\<rparr>
     = (Inl (LoginFailed ''bad password''),
        \<lparr>session = False, calls = n + 3, blobStore = [], posts = [], waited = w + 10000\<rparr>)"
  by (simp add: publisher_eval loginFails_def okPlatform_def)

lemma site_imageAt: "imageAt site url = Inr (''PNG '' @ url)"
  by (simp add: site_def)

theorem state_written_after_processing_witness:
  "\<not> isProcessing st0 \<and> healthy (disk st0)
   \<and> findLatestRunInfo site rootUrl = Some \<lparr>runId = ''20250408_t00z'', runUrl = runDirUrl0\<rparr>
   \<and> fst (readLastProcessedRunId (disk st0)) = Inr None
   \<and> findTornadoImageUrls site runDirUrl0
       = Inr [''http://nado.test/202504/20250408/t00z/a_tornado_1.png'',
              ''http://nado.test/202504/20250408/t00z/a_sig_tornado_1.png'']
   \<and> fileContent (disk (checkNadocast site okPlatform rootUrl st0)) = Some ''20250408_t00z''"
proof -
  have a: "\<not> isProcessing st0" by (simp add: st0_def)
  have b: "healthy (disk st0)" by (simp add: st0_def fs0_def healthy_def)
  have c: "fst (readLastProcessedRunId (disk st0)) = Inr None"
    by (simp add: orchestrator_eval)
  then have d: "fst (readLastProcessedRunId (disk st0))
                  \<noteq> Inr (Some (runId \<lparr>runId = ''20250408_t00z'', runUrl = runDirUrl0\<rparr>))" by simp
  have e: "findTornadoImageUrls site (runUrl \<lparr>runId = ''20250408_t00z'', runUrl = runDirUrl0\<rparr>)
       = Inr [''http://nado.test/202504/20250408/t00z/a_tornado_1.png'',
              ''http://nado.test/202504/20250408/t00z/a_sig_tornado_1.png'']"
    using site_images by simp
  from state_written_after_processing [OF a b site_latest d e, of okPlatform] a b c site_latest site_images
  show ?thesis by simp
qed

text \<open>
  The claim C1 as the specification states it fails: the platform rejects every login,
  so the publish of each of the two images of the new run fails and no post is created;
  the cycle still writes the run identifier to the state file.
\<close>

theorem state_written_after_publisher_failure:
  "fst (notifyBluesky loginFails ''text'' [''image''] [''alt''] ag0) = Inl (LoginFailed ''bad password'')
   \<and> fileContent (disk st0) = None
   \<and> posts (bsky (checkNadocast site loginFails rootUrl st0)) = []
   \<and> calls (bsky (checkNadocast site loginFails rootUrl st0)) = 6
   \<and> fileContent (disk (checkNadocast site loginFails rootUrl st0)) = Some ''20250408_t00z''"
proof -
  have n: "fst (notifyBluesky loginFails ''text'' [''image''] [''alt''] ag0) = Inl (LoginFailed ''bad password'')"
    by (simp add: publisher_eval loginFails_def okPlatform_def ag0_def)
  have s: "fileContent (disk st0) = None" by (simp add: st0_def fs0_def)
  have b: "bsky (checkNadocast site loginFails rootUrl st0) = ag0\<lparr>calls := 6, waited := 20000\<rparr>"
    by (simp add: checkNadocast_def checkBody_def site_latest site_images site_imageAt
          processImage_def fetchImages_def loginFails_notify
          readLastProcessedRunId_def writeLastProcessedRunId_def ensureStateDirectoryExists_def
          st0_def fs0_def ag0_def Let_def)
  have f: "fileContent (disk (checkNadocast site loginFails rootUrl st0)) = Some ''20250408_t00z''"
    by (simp add: checkNadocast_def checkBody_def site_latest site_images
          readLastProcessedRunId_def writeLastProcessedRunId_def ensureStateDirectoryExists_def
          trim_def isWhiteSpace_def st0_def fs0_def Let_def)
  from n s b f show ?thesis by (simp add: ag0_def)
qed

text \<open>
  C9. A cycle in which the latest run identifier equals the stored one (both may be
  absent) leaves the content of the state file as it was, and nothing is published.
\<close>

theorem no_write_when_latest_is_stored:
  assumes "fst (readLastProcessedRunId (disk st)) = Inr stored"
    and "map_option runId (findLatestRunInfo N MONITOR_URL) = stored"
  shows "fileContent (disk (checkNadocast N P MONITOR_URL st)) = fileContent (disk st)
         \<and> bsky (checkNadocast N P MONITOR_URL st) = bsky st"
proof (cases "isProcessing st")
  case True
  then show ?thesis by (simp add: checkNadocast_def)
next
  case False
  obtain r fs1 where rd: "readLastProcessedRunId (disk st) = (r, fs1)"
    by (cases "readLastProcessedRunId (disk st)")
  with assms(1) have r: "r = Inr stored" by simp
  from read_keeps_file [of "disk st"] rd have keep: "fileContent fs1 = fileContent (disk st)" by simp
  show ?thesis
  proof (cases "findLatestRunInfo N MONITOR_URL")
    case None
    with False show ?thesis by (simp add: checkNadocast_def checkBody_def)
  next
    case (Some latestRun)
    with assms(2) have "stored = Some (runId latestRun)" by simp
    with False Some rd r keep show ?thesis by (simp add: checkNadocast_def checkBody_def)
  qed
qed

theorem no_write_when_latest_is_stored_witness:
  "fst (readLastProcessedRunId (disk st1)) = Inr (Some ''20250408_t00z'')
   \<and> map_option runId (findLatestRunInfo site rootUrl) = Some ''20250408_t00z''
   \<and> fileContent (disk (checkNadocast site okPlatform rootUrl st1)) = Some ''20250408_t00z''
   \<and> bsky (checkNadocast site okPlatform rootUrl st1) = ag0
   \<and> fst (readLastProcessedRunId (disk st0)) = Inr None
   \<and> map_option runId (findLatestRunInfo plainSite rootUrl) = None
   \<and> fileContent (disk (checkNadocast plainSite okPlatform rootUrl st0)) = None"
proof -
  have a: "fst (readLastProcessedRunId (disk st1)) = Inr (Some ''20250408_t00z'')"
    by (simp add: orchestrator_eval)
  have b: "map_option runId (findLatestRunInfo site rootUrl) = Some ''20250408_t00z''"
    by (simp add: site_latest)
  have c: "fst (readLastProcessedRunId (disk st0)) = Inr None"
    by (simp add: orchestrator_eval)
  have d: "map_option runId (findLatestRunInfo plainSite rootUrl) = None"
    by (simp add: findLatestRunInfo_def latestDirectory_def plainSite_def walker_eval)
  have e: "fileContent (disk st1) = Some ''20250408_t00z''" "bsky st1 = ag0"
          "fileContent (disk st0) = None"
    by (simp_all add: st1_def st0_def fs0_def)
  from no_write_when_latest_is_stored [OF a b, of okPlatform]
       no_write_when_latest_is_stored [OF c d, of okPlatform] a b c d e
  show ?thesis by simp
qed

end
